theory Spec2Isabelle
  imports Main
begin

section \<open>Data model of the dependency-tracking core\<close>

text \<open>
  Observables (atoms, computed values) and derivations (computed values, reactions) are
  JavaScript objects that point at each other.  They are modelled as two stores, one
  from observable identities to the fields of \<open>IObservable\<close> that the tracking code
  touches, one from derivation identities to the fields of \<open>IDerivation\<close> and of
  \<open>Reaction\<close>.  The process-wide \<open>globalState\<close> object is a third record.
  A thrown JavaScript value is a value of type \<open>error\<close>; a call either returns or throws
  and in both cases leaves a world behind, because writes made before a throw persist.
\<close>

type_synonym oid = nat
type_synonym did = nat

datatype error = Error string | TypeError | RangeError

datatype 'a outcome = Returns 'a | Throws error

record observable =
  diffValue :: int
  observers :: "did set"

text \<open>
  \<open>observing\<close> is a JavaScript array of observables; a slot that was never written
  (a hole of \<open>new Array(n)\<close>) is \<open>None\<close>.  The three flags with the suffix \<open>Flag\<close>
  are the fields \<open>_isScheduled\<close>, \<open>_isTrackPending\<close> and \<open>_isRunning\<close> of
  \<open>Reaction\<close>.
\<close>

record derivation =
  name :: string
  observing :: "oid option list"
  dependencyStaleCount :: int
  dependencyChangeCount :: int
  runId :: int
  unboundDepsCount :: nat
  isDisposed :: bool
  isScheduledFlag :: bool
  isTrackPendingFlag :: bool
  isRunningFlag :: bool

record globals =
  derivationStack :: "did list"
  isTracking :: bool
  globalRunId :: int
  inTransaction :: int
  isRunningReactions :: bool
  pendingReactions :: "did list"
  currentReaction :: "did option"

text \<open>
  \<open>console\<close> collects the calls of \<open>console.warn\<close> (the derivation's name and the
  original error); \<open>user\<close> is whatever state the user's callbacks keep besides the graph.
\<close>

record 'u world =
  observables :: "oid \<Rightarrow> observable"
  derivations :: "did \<Rightarrow> derivation"
  globalState :: globals
  console :: "(string \<times> error) list"
  user :: 'u

definition upd_observable :: "oid \<Rightarrow> (observable \<Rightarrow> observable) \<Rightarrow> 'u world \<Rightarrow> 'u world" where
  "upd_observable a f w = w\<lparr>observables := (observables w)(a := f (observables w a))\<rparr>"

definition upd_derivation :: "did \<Rightarrow> (derivation \<Rightarrow> derivation) \<Rightarrow> 'u world \<Rightarrow> 'u world" where
  "upd_derivation d f w = w\<lparr>derivations := (derivations w)(d := f (derivations w d))\<rparr>"

definition upd_global :: "(globals \<Rightarrow> globals) \<Rightarrow> 'u world \<Rightarrow> 'u world" where
  "upd_global f w = w\<lparr>globalState := f (globalState w)\<rparr>"

section \<open>utils.ts\<close>

text \<open>\<open>invariant(check, message)\<close> throws an \<open>Error\<close> when the check fails.\<close>

definition invariant :: "bool \<Rightarrow> string \<Rightarrow> 'u world \<Rightarrow> unit outcome \<times> 'u world" where
  "invariant check message w =
     (if \<not> check then (Throws (Error (''[mobx] Invariant failed: '' @ message)), w)
      else (Returns (), w))"

section \<open>JavaScript arrays\<close>

text \<open>
  Assigning \<open>arr.length = n\<close> truncates the array or pads it with holes;
  \<open>arr[i] = v\<close> beyond the end pads with holes up to index \<open>i\<close>.
\<close>

definition setLength :: "nat \<Rightarrow> 'a option list \<Rightarrow> 'a option list" where
  "setLength n xs = take n xs @ replicate (n - length xs) None"

definition setIndex :: "nat \<Rightarrow> 'a \<Rightarrow> 'a option list \<Rightarrow> 'a option list" where
  "setIndex i v xs =
     (if i < length xs then xs[i := Some v]
      else xs @ replicate (i - length xs) None @ [Some v])"

section \<open>observable.ts: the observer set\<close>

text \<open>
  The hooks \<open>onBecomeObserved\<close> and \<open>onBecomeUnobserved\<close> are methods of the
  observable (dynamic dispatch) and, for an atom, callbacks of the user: they are
  parameters of the functions that fire them, functions of the observable's identity that
  can change the world in any way and can throw.  The hooks of a reaction (reaction.ts)
  do nothing, as \<open>noop\<close> does.
\<close>

definition noop :: "oid \<Rightarrow> 'u world \<Rightarrow> unit outcome \<times> 'u world" where
  "noop a w = (Returns (), w)"

text \<open>
  Modelled from the spec: \<open>addObserver\<close> of core/observable.ts is not among the sources.
  The spec (3, 4.1) says that add-observer maintains the observer set and fires the
  become-observed hook on the edge transition, when the observer set goes from empty to
  non-empty.  The set is a \<open>SimpleSet\<close>, so adding a member twice is adding it once.
\<close>

definition addObserver ::
  "(oid \<Rightarrow> 'u world \<Rightarrow> unit outcome \<times> 'u world) \<Rightarrow> oid \<Rightarrow> did \<Rightarrow> 'u world \<Rightarrow> unit outcome \<times> 'u world" where
  "addObserver onBecomeObserved a d w =
     (let wasEmpty = (observers (observables w a) = {});
          w1 = upd_observable a (\<lambda>ob. ob\<lparr>observers := insert d (observers ob)\<rparr>) w
      in if wasEmpty then onBecomeObserved a w1 else (Returns (), w1))"

text \<open>
  Modelled from the spec: \<open>removeObserver\<close> of core/observable.ts is not among the
  sources.  The spec (3, 4.1) says that remove-observer maintains the observer set and
  fires the become-unobserved hook on the edge transition, when the observer set goes from
  non-empty to empty.
\<close>

definition removeObserver ::
  "(oid \<Rightarrow> 'u world \<Rightarrow> unit outcome \<times> 'u world) \<Rightarrow> oid \<Rightarrow> did \<Rightarrow> 'u world \<Rightarrow> unit outcome \<times> 'u world" where
  "removeObserver onBecomeUnobserved a d w =
     (let wasEmpty = (observers (observables w a) = {});
          w1 = upd_observable a (\<lambda>ob. ob\<lparr>observers := observers ob - {d}\<rparr>) w
      in if \<not> wasEmpty \<and> observers (observables w1 a) = {} then onBecomeUnobserved a w1
         else (Returns (), w1))"

text \<open>
  Modelled from the spec: \<open>reportObserved\<close> of core/observable.ts is not among the
  sources.  The spec (4.1) says: if a tracking derivation is active, append this atom into
  that derivation's \<open>observing[unboundDepsCount++]\<close>.  The active derivation is the top
  of the derivation stack.
\<close>

definition reportObserved :: "oid \<Rightarrow> 'u world \<Rightarrow> unit outcome \<times> 'u world" where
  "reportObserved a w =
     (if isTracking (globalState w) \<and> derivationStack (globalState w) \<noteq> [] then
        (let d = last (derivationStack (globalState w));
             n = unboundDepsCount (derivations w d)
         in (Returns (), upd_derivation d
              (\<lambda>x. x\<lparr>observing := setIndex n a (observing x), unboundDepsCount := n + 1\<rparr>) w))
      else (Returns (), w))"


section \<open>derivation.ts: stale and ready notifications\<close>

text \<open>
  \<open>propagateStaleness\<close> and \<open>propagateReadiness\<close> live in core/observable.ts, which is
  not among the sources, and \<open>onDependenciesReady\<close> is a method of the derivation
  (dynamic dispatch); all three are parameters of the functions that call them.
\<close>

definition notifyDependencyStale ::
  "(did \<Rightarrow> 'u world \<Rightarrow> unit outcome \<times> 'u world) \<Rightarrow> did \<Rightarrow> 'u world \<Rightarrow> unit outcome \<times> 'u world" where
  "notifyDependencyStale propagateStaleness d w =
     (let w1 = upd_derivation d (\<lambda>x. x\<lparr>dependencyStaleCount := dependencyStaleCount x + 1\<rparr>) w
      in if dependencyStaleCount (derivations w1 d) = 1 then propagateStaleness d w1
         else (Returns (), w1))"

definition notifyDependencyReady ::
  "(did \<Rightarrow> 'u world \<Rightarrow> bool outcome \<times> 'u world) \<Rightarrow>
   (did \<Rightarrow> bool \<Rightarrow> 'u world \<Rightarrow> unit outcome \<times> 'u world) \<Rightarrow>
   did \<Rightarrow> bool \<Rightarrow> 'u world \<Rightarrow> unit outcome \<times> 'u world" where
  "notifyDependencyReady onDependenciesReady propagateReadiness d dependencyDidChange w =
     (case invariant (dependencyStaleCount (derivations w d) > 0)
             ''unexpected ready notification'' w of
        (Throws e, w0) \<Rightarrow> (Throws e, w0)
      | (Returns _, w0) \<Rightarrow>
          (let w1 = (if dependencyDidChange
                     then upd_derivation d
                            (\<lambda>x. x\<lparr>dependencyChangeCount := dependencyChangeCount x + 1\<rparr>) w0
                     else w0);
               w2 = upd_derivation d
                      (\<lambda>x. x\<lparr>dependencyStaleCount := dependencyStaleCount x - 1\<rparr>) w1
           in if dependencyStaleCount (derivations w2 d) = 0 then
                (if dependencyChangeCount (derivations w2 d) > 0 then
                   (let w3 = upd_derivation d (\<lambda>x. x\<lparr>dependencyChangeCount := 0\<rparr>) w2
                    in case onDependenciesReady d w3 of
                         (Throws e, w4) \<Rightarrow> (Throws e, w4)
                       | (Returns changed, w4) \<Rightarrow> propagateReadiness d changed w4)
                 else propagateReadiness d False w2)
              else (Returns (), w2)))"

section \<open>derivation.ts: binding dependencies\<close>

text \<open>
  The three loops of \<open>bindDependencies\<close>.  Reading a field of a hole (\<open>undefined\<close>)
  throws a \<open>TypeError\<close>; an exception of a hook leaves the loop.  The loops run over
  the arrays as they are when the loop starts: a hook that writes to the \<open>observing\<close>
  array of the derivation that is being bound is outside the model.
\<close>

fun markPrevObserving :: "oid option list \<Rightarrow> 'u world \<Rightarrow> unit outcome \<times> 'u world" where
  "markPrevObserving [] w = (Returns (), w)"
| "markPrevObserving (None # xs) w = (Throws TypeError, w)"
| "markPrevObserving (Some a # xs) w =
     markPrevObserving xs (upd_observable a (\<lambda>ob. ob\<lparr>diffValue := - 1\<rparr>) w)"

fun bindNewObserving ::
  "(oid \<Rightarrow> 'u world \<Rightarrow> unit outcome \<times> 'u world) \<Rightarrow> did \<Rightarrow> oid option list \<Rightarrow> 'u world \<Rightarrow> unit outcome \<times> 'u world" where
  "bindNewObserving onBecomeObserved d [] w = (Returns (), w)"
| "bindNewObserving onBecomeObserved d (None # xs) w = (Throws TypeError, w)"
| "bindNewObserving onBecomeObserved d (Some a # xs) w =
     (let w1 = upd_observable a (\<lambda>ob. ob\<lparr>diffValue := diffValue ob + 1\<rparr>) w
      in if diffValue (observables w1 a) > 0 then
           (case addObserver onBecomeObserved a d
                   (upd_observable a (\<lambda>ob. ob\<lparr>diffValue := 0\<rparr>) w1) of
              (Throws e, w2) \<Rightarrow> (Throws e, w2)
            | (Returns _, w2) \<Rightarrow> bindNewObserving onBecomeObserved d xs w2)
         else bindNewObserving onBecomeObserved d xs w1)"

fun unbindPrevObserving ::
  "(oid \<Rightarrow> 'u world \<Rightarrow> unit outcome \<times> 'u world) \<Rightarrow> did \<Rightarrow> oid option list \<Rightarrow> 'u world \<Rightarrow> unit outcome \<times> 'u world" where
  "unbindPrevObserving onBecomeUnobserved d [] w = (Returns (), w)"
| "unbindPrevObserving onBecomeUnobserved d (None # xs) w = (Throws TypeError, w)"
| "unbindPrevObserving onBecomeUnobserved d (Some a # xs) w =
     (if diffValue (observables w a) < 0 then
        (case removeObserver onBecomeUnobserved a d
                (upd_observable a (\<lambda>ob. ob\<lparr>diffValue := 0\<rparr>) w) of
           (Throws e, w1) \<Rightarrow> (Throws e, w1)
         | (Returns _, w1) \<Rightarrow> unbindPrevObserving onBecomeUnobserved d xs w1)
      else unbindPrevObserving onBecomeUnobserved d xs w)"

definition bindDependencies ::
  "(oid \<Rightarrow> 'u world \<Rightarrow> unit outcome \<times> 'u world) \<Rightarrow> (oid \<Rightarrow> 'u world \<Rightarrow> unit outcome \<times> 'u world) \<Rightarrow>
   did \<Rightarrow> oid option list \<Rightarrow> 'u world \<Rightarrow> unit outcome \<times> 'u world" where
  "bindDependencies onBecomeObserved onBecomeUnobserved d prevObserving w =
     (let newLength = unboundDepsCount (derivations w d);
          w1 = upd_derivation d (\<lambda>x. x\<lparr>observing := setLength newLength (observing x)\<rparr>) w;
          observing1 = observing (derivations w1 d)
      in case markPrevObserving prevObserving w1 of
           (Throws e, w2) \<Rightarrow> (Throws e, w2)
         | (Returns _, w2) \<Rightarrow>
             (case bindNewObserving onBecomeObserved d observing1 w2 of
                (Throws e, w3) \<Rightarrow> (Throws e, w3)
              | (Returns _, w3) \<Rightarrow> unbindPrevObserving onBecomeUnobserved d prevObserving w3))"

text \<open>
  \<open>clearObserving\<close>: the loop over the \<open>observing\<close> array, and \<open>obs.length = 0\<close>,
  which empties the array that the derivation holds.
\<close>

fun removeObservers ::
  "(oid \<Rightarrow> 'u world \<Rightarrow> unit outcome \<times> 'u world) \<Rightarrow> did \<Rightarrow> oid option list \<Rightarrow> 'u world \<Rightarrow> unit outcome \<times> 'u world" where
  "removeObservers onBecomeUnobserved d [] w = (Returns (), w)"
| "removeObservers onBecomeUnobserved d (None # xs) w = (Throws TypeError, w)"
| "removeObservers onBecomeUnobserved d (Some a # xs) w =
     (case removeObserver onBecomeUnobserved a d w of
        (Throws e, w1) \<Rightarrow> (Throws e, w1)
      | (Returns _, w1) \<Rightarrow> removeObservers onBecomeUnobserved d xs w1)"

definition clearObserving ::
  "(oid \<Rightarrow> 'u world \<Rightarrow> unit outcome \<times> 'u world) \<Rightarrow> did \<Rightarrow> 'u world \<Rightarrow> unit outcome \<times> 'u world" where
  "clearObserving onBecomeUnobserved d w =
     (case removeObservers onBecomeUnobserved d (observing (derivations w d)) w of
        (Throws e, w1) \<Rightarrow> (Throws e, w1)
      | (Returns _, w1) \<Rightarrow> (Returns (), upd_derivation d (\<lambda>x. x\<lparr>observing := []\<rparr>) w1))"

section \<open>derivation.ts: tracking a derived function\<close>

text \<open>
  The statements of \<open>trackDerivedFunction\<close> before the \<open>try\<close> block: the world in
  which \<open>f\<close> is called.
\<close>

definition trackStart :: "did \<Rightarrow> 'u world \<Rightarrow> 'u world" where
  "trackStart d w =
     (let prevObserving = observing (derivations w d);
          w1 = upd_derivation d
                 (\<lambda>x. x\<lparr>observing := replicate (length prevObserving + 100) None\<rparr>) w;
          w2 = upd_derivation d (\<lambda>x. x\<lparr>unboundDepsCount := 0\<rparr>) w1;
          w3 = upd_global (\<lambda>g. g\<lparr>globalRunId := globalRunId g + 1\<rparr>) w2;
          w4 = upd_derivation d (\<lambda>x. x\<lparr>runId := globalRunId (globalState w3)\<rparr>) w3;
          w5 = upd_global (\<lambda>g. g\<lparr>derivationStack := derivationStack g @ [d]\<rparr>) w4
      in upd_global (\<lambda>g. g\<lparr>isTracking := True\<rparr>) w5)"

text \<open>
  The \<open>catch\<close> block: the warning is logged, the two fields of the derivation are set,
  the global state is reset and the error is thrown again.  \<open>resetGlobalState\<close> lives
  in core/globalstate.ts, which is not among the sources: it is a parameter, a function on
  the \<open>globalState\<close> object.  The report to the spy listeners is not modelled.
\<close>

definition trackCatch ::
  "(globals \<Rightarrow> globals) \<Rightarrow> did \<Rightarrow> oid option list \<Rightarrow> error \<Rightarrow> 'u world \<Rightarrow> 'a outcome \<times> 'u world" where
  "trackCatch resetGlobalState d prevObserving e w =
     (let w1 = w\<lparr>console := console w @ [(name (derivations w d), e)]\<rparr>;
          w2 = upd_derivation d (\<lambda>x. x\<lparr>unboundDepsCount := 0\<rparr>) w1;
          w3 = upd_derivation d (\<lambda>x. x\<lparr>observing := prevObserving\<rparr>) w2
      in (Throws e, upd_global resetGlobalState w3))"

text \<open>
  Everything in the \<open>try\<close> block can throw into the \<open>catch\<close> block: \<open>f\<close>, the
  assignment \<open>derivationStack.length -= 1\<close> (a \<open>RangeError\<close> on an empty stack) and
  \<open>bindDependencies\<close>.  The hooks of the observables are passed on to
  \<open>bindDependencies\<close>.
\<close>

definition trackDerivedFunction ::
  "(globals \<Rightarrow> globals) \<Rightarrow>
   (oid \<Rightarrow> 'u world \<Rightarrow> unit outcome \<times> 'u world) \<Rightarrow> (oid \<Rightarrow> 'u world \<Rightarrow> unit outcome \<times> 'u world) \<Rightarrow>
   did \<Rightarrow> ('u world \<Rightarrow> 'a outcome \<times> 'u world) \<Rightarrow> 'u world \<Rightarrow> 'a outcome \<times> 'u world" where
  "trackDerivedFunction resetGlobalState onBecomeObserved onBecomeUnobserved d f w =
     (let prevObserving = observing (derivations w d);
          prevTracking = isTracking (globalState w)
      in case f (trackStart d w) of
           (Throws e, w1) \<Rightarrow> trackCatch resetGlobalState d prevObserving e w1
         | (Returns result, w1) \<Rightarrow>
             (let w2 = upd_global (\<lambda>g. g\<lparr>isTracking := prevTracking\<rparr>) w1
              in if derivationStack (globalState w2) = [] then
                   trackCatch resetGlobalState d prevObserving RangeError w2
                 else
                   (let w3 = upd_global
                               (\<lambda>g. g\<lparr>derivationStack := butlast (derivationStack g)\<rparr>) w2
                    in case bindDependencies onBecomeObserved onBecomeUnobserved d prevObserving w3 of
                         (Throws e, w4) \<Rightarrow> trackCatch resetGlobalState d prevObserving e w4
                       | (Returns _, w4) \<Rightarrow> (Returns result, w4))))"

section \<open>derivation.ts: untracked regions\<close>

definition untrackedStart :: "'u world \<Rightarrow> bool \<times> 'u world" where
  "untrackedStart w =
     (let prev = isTracking (globalState w)
      in (prev, upd_global (\<lambda>g. g\<lparr>isTracking := False\<rparr>) w))"

definition untrackedEnd :: "bool \<Rightarrow> 'u world \<Rightarrow> 'u world" where
  "untrackedEnd prev w = upd_global (\<lambda>g. g\<lparr>isTracking := prev\<rparr>) w"

text \<open>
  \<open>untracked\<close> has no exception handler: when \<open>action\<close> throws, the call of
  \<open>untrackedEnd\<close> is not reached and the exception leaves the function.
\<close>

definition untracked :: "('u world \<Rightarrow> 'a outcome \<times> 'u world) \<Rightarrow> 'u world \<Rightarrow> 'a outcome \<times> 'u world" where
  "untracked action w =
     (case untrackedStart w of (prev, w1) \<Rightarrow>
        (case action w1 of
           (Throws e, w2) \<Rightarrow> (Throws e, w2)
         | (Returns res, w2) \<Rightarrow> (Returns res, untrackedEnd prev w2)))"

section \<open>reaction.ts\<close>

text \<open>
  The \<open>onInvalidate\<close> handler is a constructor argument of each reaction; the model
  passes the handlers of all reactions as one function of the reaction's identity.
  \<open>track\<close> and \<open>dispose\<close> pass the hooks of the observables on to
  \<open>trackDerivedFunction\<close> and \<open>clearObserving\<close>.
  The reports to the spy listeners are not modelled.
\<close>

definition toString :: "derivation \<Rightarrow> string" where
  "toString r = ''Reaction['' @ name r @ '']''"

definition runReaction ::
  "(did \<Rightarrow> 'u world \<Rightarrow> unit outcome \<times> 'u world) \<Rightarrow> did \<Rightarrow> 'u world \<Rightarrow> unit outcome \<times> 'u world" where
  "runReaction onInvalidate r w =
     (if \<not> isDisposed (derivations w r) then
        (let w1 = upd_derivation r (\<lambda>x. x\<lparr>isScheduledFlag := False\<rparr>) w;
             w2 = upd_derivation r (\<lambda>x. x\<lparr>isTrackPendingFlag := True\<rparr>) w1
         in onInvalidate r w2)
      else (Returns (), w))"

definition MAX_REACTION_ITERATIONS :: nat where
  "MAX_REACTION_ITERATIONS = 100"

text \<open>The \<open>for\<close> loop over \<open>remainingReactions\<close>.\<close>

fun runRemaining ::
  "(did \<Rightarrow> 'u world \<Rightarrow> unit outcome \<times> 'u world) \<Rightarrow> did list \<Rightarrow> 'u world \<Rightarrow> unit outcome \<times> 'u world" where
  "runRemaining onInvalidate [] w = (Returns (), w)"
| "runRemaining onInvalidate (r # rs) w =
     (case runReaction onInvalidate r (upd_global (\<lambda>g. g\<lparr>currentReaction := Some r\<rparr>) w) of
        (Throws e, w1) \<Rightarrow> (Throws e, w1)
      | (Returns _, w1) \<Rightarrow> runRemaining onInvalidate rs w1)"

text \<open>
  The \<open>while\<close> loop of \<open>runReactions\<close>, with the local counter \<open>iterations\<close> as an
  argument.  \<open>allReactions\<close> is the array \<open>globalState.pendingReactions\<close>;
  \<open>splice(0)\<close> empties it and returns its elements.  The model reads the queue from the
  global state in every iteration: it takes the local \<open>allReactions\<close> and the field
  \<open>globalState.pendingReactions\<close> to stay one array, which they do unless a handler has
  the global state reset during the drain.  The error is thrown out of the function, so
  \<open>isRunningReactions\<close> stays set.  A loop that does not end has the value \<open>None\<close>.
\<close>

partial_function (option) runReactionsLoop ::
  "(did \<Rightarrow> 'u world \<Rightarrow> unit outcome \<times> 'u world) \<Rightarrow> nat \<Rightarrow> 'u world \<Rightarrow> (unit outcome \<times> 'u world) option" where
  "runReactionsLoop onInvalidate iterations w =
     (if length (pendingReactions (globalState w)) > 0 then
        (if iterations + 1 = MAX_REACTION_ITERATIONS then
           Some (Throws (Error (''Reaction doesn't converge to a stable state. Probably there is a cycle in the reactive function: ''
                   @ toString (derivations w (hd (pendingReactions (globalState w)))))), w)
         else
           (case runRemaining onInvalidate (pendingReactions (globalState w))
                   (upd_global (\<lambda>g. g\<lparr>pendingReactions := []\<rparr>) w) of
              (Throws e, w1) \<Rightarrow> Some (Throws e, w1)
            | (Returns _, w1) \<Rightarrow> runReactionsLoop onInvalidate (iterations + 1) w1))
      else Some (Returns (), w))"

definition runReactions ::
  "(did \<Rightarrow> 'u world \<Rightarrow> unit outcome \<times> 'u world) \<Rightarrow> 'u world \<Rightarrow> (unit outcome \<times> 'u world) option" where
  "runReactions onInvalidate w =
     (if isRunningReactions (globalState w) = True \<or> inTransaction (globalState w) > 0 then
        Some (Returns (), w)
      else
        (case runReactionsLoop onInvalidate 0
                (upd_global (\<lambda>g. g\<lparr>isRunningReactions := True\<rparr>) w) of
           None \<Rightarrow> None
         | Some (Throws e, w1) \<Rightarrow> Some (Throws e, w1)
         | Some (Returns _, w1) \<Rightarrow>
             Some (Returns (),
               upd_global (\<lambda>g. g\<lparr>isRunningReactions := False\<rparr>)
                 (upd_global (\<lambda>g. g\<lparr>currentReaction := None\<rparr>) w1))))"

definition schedule ::
  "(did \<Rightarrow> 'u world \<Rightarrow> unit outcome \<times> 'u world) \<Rightarrow> did \<Rightarrow> 'u world \<Rightarrow> (unit outcome \<times> 'u world) option" where
  "schedule onInvalidate r w =
     (if \<not> isScheduledFlag (derivations w r) then
        (let w1 = upd_derivation r (\<lambda>x. x\<lparr>isScheduledFlag := True\<rparr>) w;
             w2 = upd_global (\<lambda>g. g\<lparr>pendingReactions := pendingReactions g @ [r]\<rparr>) w1
         in runReactions onInvalidate w2)
      else Some (Returns (), w))"

definition onDependenciesReady ::
  "(did \<Rightarrow> 'u world \<Rightarrow> unit outcome \<times> 'u world) \<Rightarrow> did \<Rightarrow> 'u world \<Rightarrow> (bool outcome \<times> 'u world) option" where
  "onDependenciesReady onInvalidate r w =
     (case schedule onInvalidate r w of
        None \<Rightarrow> None
      | Some (Throws e, w1) \<Rightarrow> Some (Throws e, w1)
      | Some (Returns _, w1) \<Rightarrow> Some (Returns False, w1))"

definition isScheduled :: "did \<Rightarrow> 'u world \<Rightarrow> bool" where
  "isScheduled r w =
     (dependencyStaleCount (derivations w r) > 0 \<or> isScheduledFlag (derivations w r))"

definition track ::
  "(globals \<Rightarrow> globals) \<Rightarrow>
   (oid \<Rightarrow> 'u world \<Rightarrow> unit outcome \<times> 'u world) \<Rightarrow> (oid \<Rightarrow> 'u world \<Rightarrow> unit outcome \<times> 'u world) \<Rightarrow>
   did \<Rightarrow> ('u world \<Rightarrow> unit outcome \<times> 'u world) \<Rightarrow> 'u world \<Rightarrow> unit outcome \<times> 'u world" where
  "track resetGlobalState onBecomeObserved onBecomeUnobserved r fn w =
     (let w1 = upd_derivation r (\<lambda>x. x\<lparr>isRunningFlag := True\<rparr>) w
      in case trackDerivedFunction resetGlobalState onBecomeObserved onBecomeUnobserved r fn w1 of
           (Throws e, w2) \<Rightarrow> (Throws e, w2)
         | (Returns _, w2) \<Rightarrow>
             (let w3 = upd_derivation r (\<lambda>x. x\<lparr>isRunningFlag := False\<rparr>) w2;
                  w4 = upd_derivation r (\<lambda>x. x\<lparr>isTrackPendingFlag := False\<rparr>) w3
              in if isDisposed (derivations w4 r) then clearObserving onBecomeUnobserved r w4
                 else (Returns (), w4)))"

definition dispose ::
  "(oid \<Rightarrow> 'u world \<Rightarrow> unit outcome \<times> 'u world) \<Rightarrow> did \<Rightarrow> 'u world \<Rightarrow> unit outcome \<times> 'u world" where
  "dispose onBecomeUnobserved r w =
     (if \<not> isDisposed (derivations w r) then
        (let w1 = upd_derivation r (\<lambda>x. x\<lparr>isDisposed := True\<rparr>) w
         in if \<not> isRunningFlag (derivations w1 r) then clearObserving onBecomeUnobserved r w1
            else (Returns (), w1))
      else (Returns (), w))"

section \<open>Properties of worlds\<close>

text \<open>
  Invariant (I1) of the spec: an observable is an element of a derivation's \<open>observing\<close>
  list exactly when the derivation is a member of the observable's observer set.
\<close>

definition observersConsistent :: "'u world \<Rightarrow> bool" where
  "observersConsistent w =
     (\<forall>a d. (Some a \<in> set (observing (derivations w d))) = (d \<in> observers (observables w a)))"

text \<open>
  The same of one derivation: its \<open>observing\<close> list agrees with the observer sets.
  While a derivation is being tracked its list is the array that the run fills, and does
  not agree.
\<close>

definition observingAgrees :: "did \<Rightarrow> 'u world \<Rightarrow> bool" where
  "observingAgrees d w =
     (\<forall>a. (Some a \<in> set (observing (derivations w d))) = (d \<in> observers (observables w a)))"

text \<open>
  What is assumed of a hook where a result needs it: that it returns from every world;
  that it leaves every \<open>diffValue\<close> as it is; that it leaves a derivation alone, its
  fields and its membership in every observer set; that it keeps the agreement of a
  derivation, from every world in which the derivation's list agrees and from which the
  hook returns.
  The hook of a computed value that clears the dependencies of the computed value when
  its last observer has gone leaves every \<open>diffValue\<close> as it is, leaves every other
  derivation alone and keeps the agreement of every derivation (\<open>coolDown\<close> below).
\<close>

definition alwaysReturns :: "(oid \<Rightarrow> 'u world \<Rightarrow> unit outcome \<times> 'u world) \<Rightarrow> bool" where
  "alwaysReturns hook = (\<forall>a w. fst (hook a w) = Returns ())"

definition leavesDiffValues :: "(oid \<Rightarrow> 'u world \<Rightarrow> unit outcome \<times> 'u world) \<Rightarrow> bool" where
  "leavesDiffValues hook =
     (\<forall>a w b. diffValue (observables (snd (hook a w)) b) = diffValue (observables w b))"

definition leavesDerivation :: "did \<Rightarrow> (oid \<Rightarrow> 'u world \<Rightarrow> unit outcome \<times> 'u world) \<Rightarrow> bool" where
  "leavesDerivation d hook =
     (\<forall>a w. derivations (snd (hook a w)) d = derivations w d \<and>
            (\<forall>b. (d \<in> observers (observables (snd (hook a w)) b)) = (d \<in> observers (observables w b))))"

definition keepsAgreement :: "did \<Rightarrow> (oid \<Rightarrow> 'u world \<Rightarrow> unit outcome \<times> 'u world) \<Rightarrow> bool" where
  "keepsAgreement d hook =
     (\<forall>a w. observingAgrees d w \<and> fst (hook a w) = Returns ()
        \<longrightarrow> observingAgrees d (snd (hook a w)))"

text \<open>Every observable in the list has a \<open>diffValue\<close> of at least \<open>k\<close>.\<close>

definition diffValuesFrom :: "int \<Rightarrow> oid option list \<Rightarrow> 'u world \<Rightarrow> bool" where
  "diffValuesFrom k xs w = (\<forall>a. Some a \<in> set xs \<longrightarrow> k \<le> diffValue (observables w a))"

text \<open>
  The new \<open>observing\<close> array as \<open>bindDependencies\<close> trims it: the first
  \<open>unboundDepsCount\<close> slots.
\<close>

definition newObserving :: "did \<Rightarrow> 'u world \<Rightarrow> oid option list" where
  "newObserving d w = setLength (unboundDepsCount (derivations w d)) (observing (derivations w d))"

text \<open>
  Invariant (I3) of the spec: no derivation has a negative \<open>dependencyStaleCount\<close>.
  A callback keeps the counts non-negative if it does so from every world; it leaves the
  count of a derivation alone if it never changes it.
\<close>

definition staleCountsNonNegative :: "'u world \<Rightarrow> bool" where
  "staleCountsNonNegative w = (\<forall>d. 0 \<le> dependencyStaleCount (derivations w d))"

definition keepsStaleCountsNonNegative :: "('u world \<Rightarrow> 'a outcome \<times> 'u world) \<Rightarrow> bool" where
  "keepsStaleCountsNonNegative c =
     (\<forall>w. staleCountsNonNegative w \<longrightarrow> staleCountsNonNegative (snd (c w)))"

definition leavesStaleCount :: "did \<Rightarrow> ('u world \<Rightarrow> 'a outcome \<times> 'u world) \<Rightarrow> bool" where
  "leavesStaleCount d c =
     (\<forall>w. dependencyStaleCount (derivations (snd (c w)) d) = dependencyStaleCount (derivations w d))"

text \<open>
  Every reaction occurs at most once in \<open>pendingReactions\<close>, and every reaction in the
  queue has its \<open>_isScheduled\<close> flag set.
\<close>

definition queueConsistent :: "'u world \<Rightarrow> bool" where
  "queueConsistent w =
     (distinct (pendingReactions (globalState w)) \<and>
      (\<forall>r \<in> set (pendingReactions (globalState w)). isScheduledFlag (derivations w r)))"

text \<open>
  A reaction that \<open>runReactions\<close> has spliced out of the queue and not run yet: its flag
  is set and it is not in the queue.
\<close>

definition awaitingRun :: "did \<Rightarrow> 'u world \<Rightarrow> bool" where
  "awaitingRun q w =
     (isScheduledFlag (derivations w q) \<and> q \<notin> set (pendingReactions (globalState w)))"

text \<open>
  What is assumed of the \<open>onInvalidate\<close> handlers: they keep the queue consistent and
  leave alone the reactions that await their run, as handlers do that reach the queue and
  the flags only through \<open>schedule\<close>.
\<close>

definition respectsQueue :: "(did \<Rightarrow> 'u world \<Rightarrow> unit outcome \<times> 'u world) \<Rightarrow> bool" where
  "respectsQueue onInvalidate =
     (\<forall>r w. queueConsistent w \<longrightarrow>
        queueConsistent (snd (onInvalidate r w)) \<and>
        (\<forall>q. awaitingRun q w \<longrightarrow> awaitingRun q (snd (onInvalidate r w))))"

text \<open>
  What is assumed of the \<open>onInvalidate\<close> handlers where a drain is to stay outside
  transactions: a handler that is called with no transaction open leaves none open, whether
  it returns or throws.
\<close>

definition leavesTransactionsClosed :: "(did \<Rightarrow> 'u world \<Rightarrow> unit outcome \<times> 'u world) \<Rightarrow> bool" where
  "leavesTransactionsClosed onInvalidate =
     (\<forall>r w. inTransaction (globalState w) \<le> 0
        \<longrightarrow> inTransaction (globalState (snd (onInvalidate r w))) \<le> 0)"

text \<open>
  The handlers that behave as \<open>onInvalidate\<close> when they are called with no transaction
  open and as \<open>other\<close> when they are called inside a transaction.  A run that is the same
  for every \<open>other\<close> calls no handler inside a transaction.
\<close>

definition outsideTransactions ::
  "(did \<Rightarrow> 'u world \<Rightarrow> unit outcome \<times> 'u world) \<Rightarrow> (did \<Rightarrow> 'u world \<Rightarrow> unit outcome \<times> 'u world) \<Rightarrow>
   did \<Rightarrow> 'u world \<Rightarrow> unit outcome \<times> 'u world" where
  "outsideTransactions other onInvalidate r w =
     (if 0 < inTransaction (globalState w) then other r w else onInvalidate r w)"

section \<open>Example worlds\<close>

text \<open>
  A fresh derivation and a fresh observable (the field initialisers of \<open>Reaction\<close>), and a
  world of such objects with nothing tracked, scheduled or running.
\<close>

definition noDerivation :: derivation where
  "noDerivation = \<lparr>name = '''', observing = [], dependencyStaleCount = 0,
     dependencyChangeCount = 0, runId = 0, unboundDepsCount = 0, isDisposed = False,
     isScheduledFlag = False, isTrackPendingFlag = False, isRunningFlag = False\<rparr>"

definition noObservable :: observable where
  "noObservable = \<lparr>diffValue = 0, observers = {}\<rparr>"

definition initialGlobals :: globals where
  "initialGlobals = \<lparr>derivationStack = [], isTracking = False, globalRunId = 0,
     inTransaction = 0, isRunningReactions = False, pendingReactions = [],
     currentReaction = None\<rparr>"

definition initialWorld :: "'u \<Rightarrow> 'u world" where
  "initialWorld u = \<lparr>observables = (\<lambda>_. noObservable), derivations = (\<lambda>_. noDerivation),
     globalState = initialGlobals, console = [], user = u\<rparr>"

text \<open>
  A world inside a tracking run (\<open>isTracking\<close> is set), an action that throws and one
  that returns after setting the flag itself.
\<close>

definition trackingWorld :: "unit world" where
  "trackingWorld = upd_global (\<lambda>g. g\<lparr>isTracking := True, derivationStack := [7]\<rparr>) (initialWorld ())"

definition throwingAction :: "unit world \<Rightarrow> unit outcome \<times> unit world" where
  "throwingAction w = (Throws (Error ''boom''), w)"

definition returningAction :: "unit world \<Rightarrow> nat outcome \<times> unit world" where
  "returningAction w = (Returns 5, upd_global (\<lambda>g. g\<lparr>isTracking := True\<rparr>) w)"

text \<open>
  A world in which reaction 7 observes the observables 1 and 2, a possible
  \<open>resetGlobalState\<close>, a tracked function that reads 2, 3 and 3 again, and one that
  reads 3 and then throws.
\<close>

definition resetExample :: "globals \<Rightarrow> globals" where
  "resetExample g = initialGlobals"

definition boundWorld :: "unit world" where
  "boundWorld = (initialWorld ())
     \<lparr>observables := (\<lambda>_. noObservable)
        (1 := \<lparr>diffValue = 0, observers = {7}\<rparr>, 2 := \<lparr>diffValue = 0, observers = {7}\<rparr>),
      derivations := (\<lambda>_. noDerivation)
        (7 := noDerivation\<lparr>name := ''r'', observing := [Some 1, Some 2], unboundDepsCount := 2\<rparr>)\<rparr>"

definition readsAction :: "unit world \<Rightarrow> unit outcome \<times> unit world" where
  "readsAction w =
     (case reportObserved 2 w of (_, w1) \<Rightarrow>
        (case reportObserved 3 w1 of (_, w2) \<Rightarrow> reportObserved 3 w2))"

definition failingAction :: "unit world \<Rightarrow> unit outcome \<times> unit world" where
  "failingAction w =
     (case reportObserved 3 w of (_, w1) \<Rightarrow> (Throws (Error ''boom''), w1))"

text \<open>
  Callbacks that do nothing but record their call in \<open>user\<close>, and worlds for them: one
  with an open transaction and one in which reactions are being run, each with reaction 7
  pending.
\<close>

datatype event = OnDependenciesReady did | PropagateReadiness did bool
  | PropagateStaleness did | OnInvalidate did

definition logStaleness :: "did \<Rightarrow> event list world \<Rightarrow> unit outcome \<times> event list world" where
  "logStaleness d w = (Returns (), w\<lparr>user := user w @ [PropagateStaleness d]\<rparr>)"

definition logReadiness :: "did \<Rightarrow> bool \<Rightarrow> event list world \<Rightarrow> unit outcome \<times> event list world" where
  "logReadiness d changed w = (Returns (), w\<lparr>user := user w @ [PropagateReadiness d changed]\<rparr>)"

definition logDependenciesReady :: "did \<Rightarrow> event list world \<Rightarrow> bool outcome \<times> event list world" where
  "logDependenciesReady d w = (Returns True, w\<lparr>user := user w @ [OnDependenciesReady d]\<rparr>)"

definition logInvalidate :: "did \<Rightarrow> event list world \<Rightarrow> unit outcome \<times> event list world" where
  "logInvalidate r w = (Returns (), w\<lparr>user := user w @ [OnInvalidate r]\<rparr>)"

text \<open>Derivation 7 waits for \<open>stale\<close> dependencies, \<open>changed\<close> of which have changed.\<close>

definition staleWorld :: "int \<Rightarrow> int \<Rightarrow> event list world" where
  "staleWorld stale changed = (initialWorld [])
     \<lparr>derivations := (\<lambda>_. noDerivation)
        (7 := noDerivation\<lparr>dependencyStaleCount := stale, dependencyChangeCount := changed\<rparr>)\<rparr>"

definition transactionWorld :: "event list world" where
  "transactionWorld = (initialWorld [])
     \<lparr>derivations := (\<lambda>_. noDerivation)(7 := noDerivation\<lparr>isScheduledFlag := True\<rparr>),
      globalState := initialGlobals\<lparr>inTransaction := 1, pendingReactions := [7]\<rparr>\<rparr>"

definition drainingWorld :: "event list world" where
  "drainingWorld = (initialWorld [])
     \<lparr>derivations := (\<lambda>_. noDerivation)(7 := noDerivation\<lparr>isScheduledFlag := True\<rparr>),
      globalState := initialGlobals\<lparr>isRunningReactions := True, pendingReactions := [7]\<rparr>\<rparr>"

text \<open>An \<open>onInvalidate\<close> handler that throws, and reaction 7 of \<open>boundWorld\<close> running.\<close>

definition throwingInvalidate :: "did \<Rightarrow> 'u world \<Rightarrow> unit outcome \<times> 'u world" where
  "throwingInvalidate r w = (Throws (Error ''invalidated''), w)"

text \<open>A tracked function of reaction 7 that reads 3 and then disposes of the reaction.\<close>

definition disposingAction :: "unit world \<Rightarrow> unit outcome \<times> unit world" where
  "disposingAction w = (case reportObserved 3 w of (_, w1) \<Rightarrow> dispose noop 7 w1)"

definition runningWorld :: "unit world" where
  "runningWorld = upd_derivation 7 (\<lambda>x. x\<lparr>isRunningFlag := True\<rparr>) boundWorld"

text \<open>
  The reaction of the divergence scenario of the spec (\<open>a = 0; reaction(() => a++)\<close>),
  made to converge: each run increments the counter \<open>a\<close> kept in \<open>user\<close>, and this
  schedules the reaction again as long as the counter is below \<open>limit\<close>.  The reaction
  runs inside \<open>runReactions\<close>, where the \<open>runReactions\<close> call of \<open>schedule\<close> returns
  at once, whatever the handlers are.
\<close>

definition selfTrigger :: "nat \<Rightarrow> did \<Rightarrow> nat world \<Rightarrow> unit outcome \<times> nat world" where
  "selfTrigger limit r w =
     (let w1 = w\<lparr>user := user w + 1\<rparr>
      in if user w1 < limit then
           (case schedule (\<lambda>_ w'. (Returns (), w')) r w1 of
              Some res \<Rightarrow> res
            | None \<Rightarrow> (Throws (Error ''no result''), w1))
         else (Returns (), w1))"

text \<open>The reaction \<open>counter\<close> is scheduled and nothing else is going on.\<close>

definition counterWorld :: "nat world" where
  "counterWorld = (initialWorld 0)
     \<lparr>derivations := (\<lambda>_. noDerivation)
         (7 := noDerivation\<lparr>name := ''counter'', isScheduledFlag := True\<rparr>),
      globalState := initialGlobals\<lparr>pendingReactions := [7]\<rparr>\<rparr>"

text \<open>
  The worlds of that drain: the reaction \<open>counter\<close> has run \<open>a\<close> times and is in the
  queue again (\<open>passWorld\<close>), or has run \<open>a\<close> times and the queue is empty
  (\<open>drainedWorld\<close>).
\<close>

definition passWorld :: "did option \<Rightarrow> bool \<Rightarrow> nat \<Rightarrow> nat world" where
  "passWorld cur trackPending a = (initialWorld a)
     \<lparr>derivations := (\<lambda>_. noDerivation)
         (7 := noDerivation\<lparr>name := ''counter'', isScheduledFlag := True,
                             isTrackPendingFlag := trackPending\<rparr>),
      globalState := initialGlobals\<lparr>isRunningReactions := True, pendingReactions := [7],
                                     currentReaction := cur\<rparr>\<rparr>"

definition drainedWorld :: "nat \<Rightarrow> nat world" where
  "drainedWorld a = (initialWorld a)
     \<lparr>derivations := (\<lambda>_. noDerivation)
         (7 := noDerivation\<lparr>name := ''counter'', isScheduledFlag := False,
                             isTrackPendingFlag := True\<rparr>),
      globalState := initialGlobals\<lparr>isRunningReactions := True, pendingReactions := [],
                                     currentReaction := Some 7\<rparr>\<rparr>"

text \<open>A tracked function that reads the given observables, one after the other.\<close>

fun reads :: "oid list \<Rightarrow> 'u world \<Rightarrow> unit outcome \<times> 'u world" where
  "reads [] w = (Returns (), w)"
| "reads (a # as) w = (case reportObserved a w of (_, w1) \<Rightarrow> reads as w1)"

text \<open>
  The world in the middle of a tracking run of reaction 7 of \<open>boundWorld\<close>: the run has
  started and the tracked function has read observable 1.  A computed value that the
  tracked function reads next is tracked inside this run: the inner run of derivation 8.
\<close>

definition midRunWorld :: "unit world" where
  "midRunWorld = snd (reportObserved 1 (trackStart 7 boundWorld))"

text \<open>
  A computed value is an observable and a derivation under one identity, here 3: reaction
  7 observes the observable 1 and the computed value 3, which observes the observable 4.
  \<open>coolDown\<close> is the \<open>onBecomeUnobserved\<close> hook that cleans up after a computed value
  that has lost its last observer: it clears the dependencies of derivation 3 when
  observable 3 becomes unobserved.
\<close>

definition computedWorld :: "unit world" where
  "computedWorld = (initialWorld ())
     \<lparr>observables := (\<lambda>_. noObservable)
        (1 := \<lparr>diffValue = 0, observers = {7}\<rparr>, 3 := \<lparr>diffValue = 0, observers = {7}\<rparr>,
         4 := \<lparr>diffValue = 0, observers = {3}\<rparr>),
      derivations := (\<lambda>_. noDerivation)
        (7 := noDerivation\<lparr>name := ''r'', observing := [Some 1, Some 3], unboundDepsCount := 2\<rparr>,
         3 := noDerivation\<lparr>name := ''c'', observing := [Some 4], unboundDepsCount := 1\<rparr>)\<rparr>"

definition coolDown :: "oid \<Rightarrow> 'u world \<Rightarrow> unit outcome \<times> 'u world" where
  "coolDown a w = (if a = 3 then clearObserving noop 3 w else (Returns (), w))"

text \<open>
  Handlers that record the transaction depth at which they are called, the second of which
  returns with a transaction open when it is the handler of reaction 7; and a world in
  which the reactions 7 and 8 are pending and nothing else is going on.
\<close>

definition recordDepth :: "did \<Rightarrow> (did \<times> int) list world \<Rightarrow> unit outcome \<times> (did \<times> int) list world" where
  "recordDepth r w = (Returns (), w\<lparr>user := user w @ [(r, inTransaction (globalState w))]\<rparr>)"

definition leavingOpen :: "did \<Rightarrow> (did \<times> int) list world \<Rightarrow> unit outcome \<times> (did \<times> int) list world" where
  "leavingOpen r w =
     (case recordDepth r w of (_, w1) \<Rightarrow>
        if r = 7 then (Returns (), upd_global (\<lambda>g. g\<lparr>inTransaction := inTransaction g + 1\<rparr>) w1)
        else (Returns (), w1))"

definition batchWorld :: "(did \<times> int) list world" where
  "batchWorld = (initialWorld [])
     \<lparr>derivations := (\<lambda>_. noDerivation)
        (7 := noDerivation\<lparr>isScheduledFlag := True\<rparr>, 8 := noDerivation\<lparr>isScheduledFlag := True\<rparr>),
      globalState := initialGlobals\<lparr>pendingReactions := [7, 8]\<rparr>\<rparr>"

text \<open>Reaction 7 is pending, no transaction is open and no reactions are being run.\<close>

definition pendingWorld :: "event list world" where
  "pendingWorld = upd_global (\<lambda>g. g\<lparr>inTransaction := 0\<rparr>) transactionWorld"

section \<open>Basic facts about the stores\<close>

lemma upd_global_simps [simp]:
  "globalState (upd_global f w) = f (globalState w)"
  "observables (upd_global f w) = observables w"
  "derivations (upd_global f w) = derivations w"
  "console (upd_global f w) = console w"
  "user (upd_global f w) = user w"
  by (simp_all add: upd_global_def)

lemma upd_observable_simps [simp]:
  "derivations (upd_observable a f w) = derivations w"
  "globalState (upd_observable a f w) = globalState w"
  "console (upd_observable a f w) = console w"
  "user (upd_observable a f w) = user w"
  by (simp_all add: upd_observable_def)

lemma upd_observable_other [simp]:
  "a \<noteq> b \<Longrightarrow> observables (upd_observable b f w) a = observables w a"
  by (simp add: upd_observable_def)

lemma upd_observable_same:
  "observables (upd_observable b f w) b = f (observables w b)"
  by (simp add: upd_observable_def)

lemma upd_diffValue_observers [simp]:
  "observers (observables (upd_observable b (\<lambda>ob. ob\<lparr>diffValue := g ob\<rparr>) w) a)
     = observers (observables w a)"
  by (simp add: upd_observable_def)

lemma upd_diffValue_diffValue [simp]:
  "diffValue (observables (upd_observable b (\<lambda>ob. ob\<lparr>diffValue := g ob\<rparr>) w) a)
     = (if a = b then g (observables w b) else diffValue (observables w a))"
  by (simp add: upd_observable_def)

lemma upd_observers_diffValue [simp]:
  "diffValue (observables (upd_observable b (\<lambda>ob. ob\<lparr>observers := g ob\<rparr>) w) a)
     = diffValue (observables w a)"
  by (simp add: upd_observable_def)

lemma upd_observers_observers [simp]:
  "observers (observables (upd_observable b (\<lambda>ob. ob\<lparr>observers := g ob\<rparr>) w) a)
     = (if a = b then g (observables w b) else observers (observables w a))"
  by (simp add: upd_observable_def)

lemma upd_derivation_simps [simp]:
  "derivations (upd_derivation d f w) = (derivations w)(d := f (derivations w d))"
  "observables (upd_derivation d f w) = observables w"
  "globalState (upd_derivation d f w) = globalState w"
  "console (upd_derivation d f w) = console w"
  "user (upd_derivation d f w) = user w"
  by (simp_all add: upd_derivation_def)

subsection \<open>Hooks\<close>

lemma noop_hook:
  "alwaysReturns noop"
  "leavesDiffValues noop"
  "leavesDerivation d noop"
  "keepsAgreement d noop"
  by (simp_all add: alwaysReturns_def leavesDiffValues_def leavesDerivation_def
      keepsAgreement_def noop_def)

lemma alwaysReturnsD: "alwaysReturns h \<Longrightarrow> fst (h a w) = Returns ()"
  by (simp add: alwaysReturns_def)

lemma leavesDiffValuesD:
  "leavesDiffValues h \<Longrightarrow> diffValue (observables (snd (h a w)) b) = diffValue (observables w b)"
  by (simp add: leavesDiffValues_def)

lemma leavesDerivationD:
  assumes "leavesDerivation d h"
  shows "derivations (snd (h a w)) d = derivations w d"
    and "(d \<in> observers (observables (snd (h a w)) b)) = (d \<in> observers (observables w b))"
  using assms by (simp_all add: leavesDerivation_def)

lemma keepsAgreementD:
  "keepsAgreement d h \<Longrightarrow> observingAgrees d w \<Longrightarrow> fst (h a w) = Returns () \<Longrightarrow>
   observingAgrees d (snd (h a w))"
  by (simp add: keepsAgreement_def)

lemma observingAgreesD:
  "observingAgrees d w \<Longrightarrow>
   (Some a \<in> set (observing (derivations w d))) = (d \<in> observers (observables w a))"
  by (simp add: observingAgrees_def)

lemma observingAgrees_cong:
  "derivations w d = derivations w' d \<Longrightarrow>
   (\<And>a. (d \<in> observers (observables w a)) = (d \<in> observers (observables w' a))) \<Longrightarrow>
   observingAgrees d w = observingAgrees d w'"
  by (simp add: observingAgrees_def)

lemma observingAgrees_upd [simp]:
  "observingAgrees d (upd_global f w) = observingAgrees d w"
  "observingAgrees d (upd_observable a (\<lambda>ob. ob\<lparr>diffValue := g ob\<rparr>) w) = observingAgrees d w"
  "D \<noteq> d \<Longrightarrow> observingAgrees D (upd_derivation d k w) = observingAgrees D w"
  "D \<noteq> d \<Longrightarrow>
   observingAgrees D (upd_observable a (\<lambda>ob. ob\<lparr>observers := insert d (observers ob)\<rparr>) w)
     = observingAgrees D w"
  "D \<noteq> d \<Longrightarrow>
   observingAgrees D (upd_observable a (\<lambda>ob. ob\<lparr>observers := observers ob - {d}\<rparr>) w)
     = observingAgrees D w"
  by (auto simp: observingAgrees_def)

subsection \<open>addObserver and removeObserver\<close>

lemma addObserver_noop [simp]:
  "addObserver noop a d w
     = (Returns (), upd_observable a (\<lambda>ob. ob\<lparr>observers := insert d (observers ob)\<rparr>) w)"
  by (simp add: addObserver_def noop_def Let_def)

lemma removeObserver_noop [simp]:
  "removeObserver noop a d w
     = (Returns (), upd_observable a (\<lambda>ob. ob\<lparr>observers := observers ob - {d}\<rparr>) w)"
  by (simp add: removeObserver_def noop_def Let_def)

lemma addObserver_returns: "alwaysReturns h \<Longrightarrow> fst (addObserver h a d w) = Returns ()"
  by (simp add: addObserver_def Let_def alwaysReturnsD)

lemma removeObserver_returns: "alwaysReturns h \<Longrightarrow> fst (removeObserver h a d w) = Returns ()"
  by (simp add: removeObserver_def Let_def alwaysReturnsD)

lemma addObserver_diffValue:
  "leavesDiffValues h \<Longrightarrow>
   diffValue (observables (snd (addObserver h a d w)) b) = diffValue (observables w b)"
  by (simp add: addObserver_def Let_def leavesDiffValuesD)

lemma removeObserver_diffValue:
  "leavesDiffValues h \<Longrightarrow>
   diffValue (observables (snd (removeObserver h a d w)) b) = diffValue (observables w b)"
  by (simp add: removeObserver_def Let_def leavesDiffValuesD)

lemma addObserver_member:
  "leavesDerivation d h \<Longrightarrow>
   (d \<in> observers (observables (snd (addObserver h a d w)) b))
     = (b = a \<or> d \<in> observers (observables w b))"
  by (simp add: addObserver_def Let_def leavesDerivationD)

lemma removeObserver_member:
  "leavesDerivation d h \<Longrightarrow>
   (d \<in> observers (observables (snd (removeObserver h a d w)) b))
     = (b \<noteq> a \<and> d \<in> observers (observables w b))"
  by (auto simp: removeObserver_def Let_def leavesDerivationD)

lemma addObserver_other_member:
  "leavesDerivation D h \<Longrightarrow> D \<noteq> d \<Longrightarrow>
   (D \<in> observers (observables (snd (addObserver h a d w)) b))
     = (D \<in> observers (observables w b))"
  by (simp add: addObserver_def Let_def leavesDerivationD)

lemma removeObserver_other_member:
  "leavesDerivation D h \<Longrightarrow> D \<noteq> d \<Longrightarrow>
   (D \<in> observers (observables (snd (removeObserver h a d w)) b))
     = (D \<in> observers (observables w b))"
  by (auto simp: removeObserver_def Let_def leavesDerivationD)

lemma addObserver_derivation:
  "leavesDerivation D h \<Longrightarrow> derivations (snd (addObserver h a d w)) D = derivations w D"
  by (simp add: addObserver_def Let_def leavesDerivationD)

lemma removeObserver_derivation:
  "leavesDerivation D h \<Longrightarrow> derivations (snd (removeObserver h a d w)) D = derivations w D"
  by (simp add: removeObserver_def Let_def leavesDerivationD)

lemma addObserver_agrees:
  "D \<noteq> d \<Longrightarrow> keepsAgreement D h \<Longrightarrow> observingAgrees D w \<Longrightarrow>
   fst (addObserver h a d w) = Returns () \<Longrightarrow> observingAgrees D (snd (addObserver h a d w))"
  by (auto simp: addObserver_def Let_def keepsAgreementD split: if_splits)

lemma removeObserver_agrees:
  "D \<noteq> d \<Longrightarrow> keepsAgreement D h \<Longrightarrow> observingAgrees D w \<Longrightarrow>
   fst (removeObserver h a d w) = Returns () \<Longrightarrow> observingAgrees D (snd (removeObserver h a d w))"
  by (auto simp: removeObserver_def Let_def keepsAgreementD split: if_splits)

subsection \<open>markPrevObserving\<close>

lemma markPrev_returns: "None \<notin> set xs \<Longrightarrow> fst (markPrevObserving xs w) = Returns ()"
  by (induction xs w rule: markPrevObserving.induct) auto

lemma markPrev_returnsD: "fst (markPrevObserving xs w) = Returns () \<Longrightarrow> None \<notin> set xs"
  by (induction xs w rule: markPrevObserving.induct) auto

lemma markPrev_frame:
  "derivations (snd (markPrevObserving xs w)) = derivations w"
  "globalState (snd (markPrevObserving xs w)) = globalState w"
  "console (snd (markPrevObserving xs w)) = console w"
  "user (snd (markPrevObserving xs w)) = user w"
  by (induction xs w rule: markPrevObserving.induct) auto

lemma markPrev_observers:
  "observers (observables (snd (markPrevObserving xs w)) a) = observers (observables w a)"
  by (induction xs w rule: markPrevObserving.induct) auto

lemma markPrev_agrees:
  "observingAgrees D (snd (markPrevObserving xs w)) = observingAgrees D w"
  by (simp add: observingAgrees_def markPrev_frame markPrev_observers)

lemma markPrev_diff_other:
  "Some a \<notin> set xs \<Longrightarrow>
   diffValue (observables (snd (markPrevObserving xs w)) a) = diffValue (observables w a)"
  by (induction xs w rule: markPrevObserving.induct) auto

lemma markPrev_diff_marked_aux:
  "None \<notin> set xs \<Longrightarrow> Some a \<in> set xs \<or> diffValue (observables w a) = - 1 \<Longrightarrow>
   diffValue (observables (snd (markPrevObserving xs w)) a) = - 1"
  by (induction xs w rule: markPrevObserving.induct) auto

lemma markPrev_untouched:
  "Some a \<notin> set xs \<Longrightarrow> observables (snd (markPrevObserving xs w)) a = observables w a"
  by (induction xs w rule: markPrevObserving.induct) auto

subsection \<open>bindNewObserving\<close>

lemma bindNew_returns:
  assumes h: "alwaysReturns h"
  shows "None \<notin> set xs \<Longrightarrow> fst (bindNewObserving h d xs w) = Returns ()"
proof (induction xs arbitrary: w)
  case Nil
  then show ?case by simp
next
  case (Cons x xs)
  then show ?case
    by (cases x) (auto simp: Let_def case_prod_beta addObserver_returns [OF h])
qed

lemma bindNew_returnsD: "fst (bindNewObserving h d xs w) = Returns () \<Longrightarrow> None \<notin> set xs"
proof (induction xs arbitrary: w)
  case Nil
  then show ?case by simp
next
  case (Cons x xs)
  then show ?case
    by (cases x) (auto simp: Let_def case_prod_beta split: outcome.splits if_splits)
qed

lemma bindNew_diff_untouched:
  assumes h: "leavesDiffValues h"
  shows "Some a \<notin> set xs \<Longrightarrow>
   diffValue (observables (snd (bindNewObserving h d xs w)) a) = diffValue (observables w a)"
proof (induction xs arbitrary: w)
  case Nil
  then show ?case by simp
next
  case (Cons x xs)
  then show ?case
    by (cases x)
       (auto simp: Let_def case_prod_beta addObserver_diffValue [OF h] split: outcome.splits)
qed

lemma bindNew_member_untouched:
  assumes h: "leavesDerivation d h"
  shows "Some a \<notin> set xs \<Longrightarrow>
   (d \<in> observers (observables (snd (bindNewObserving h d xs w)) a))
     = (d \<in> observers (observables w a))"
proof (induction xs arbitrary: w)
  case Nil
  then show ?case by simp
next
  case (Cons x xs)
  then show ?case
    by (cases x)
       (auto simp: Let_def case_prod_beta addObserver_member [OF h] split: outcome.splits)
qed

lemma bindNew_keeps:
  assumes h: "leavesDerivation d h"
  shows "d \<in> observers (observables w a) \<Longrightarrow>
   d \<in> observers (observables (snd (bindNewObserving h d xs w)) a)"
proof (induction xs arbitrary: w)
  case Nil
  then show ?case by simp
next
  case (Cons x xs)
  then show ?case
    by (cases x)
       (auto simp: Let_def case_prod_beta addObserver_member [OF h] split: outcome.splits)
qed

lemma bindNew_derivation:
  assumes h: "leavesDerivation D h"
  shows "derivations (snd (bindNewObserving h d xs w)) D = derivations w D"
proof (induction xs arbitrary: w)
  case Nil
  then show ?case by simp
next
  case (Cons x xs)
  then show ?case
    by (cases x)
       (auto simp: Let_def case_prod_beta addObserver_derivation [OF h] split: outcome.splits)
qed

lemma bindNew_adds:
  assumes h: "leavesDiffValues h" and l: "leavesDerivation d h"
  shows "fst (bindNewObserving h d xs w) = Returns () \<Longrightarrow> Some a \<in> set xs \<Longrightarrow>
   0 \<le> diffValue (observables w a) \<Longrightarrow>
   d \<in> observers (observables (snd (bindNewObserving h d xs w)) a)"
proof (induction xs arbitrary: w)
  case Nil
  then show ?case by simp
next
  case (Cons x xs)
  show ?case
  proof (cases x)
    case None
    with Cons.prems show ?thesis by simp
  next
    case (Some b)
    show ?thesis
    proof (cases "b = a")
      case True
      with Cons.prems Some show ?thesis
        by (auto simp: Let_def case_prod_beta addObserver_member [OF l]
            intro!: bindNew_keeps [OF l] split: outcome.splits if_splits)
    next
      case False
      with Cons Some show ?thesis
        by (auto simp: Let_def case_prod_beta addObserver_diffValue [OF h]
            split: outcome.splits if_splits)
    qed
  qed
qed

lemma bindNew_clean_aux:
  assumes h: "leavesDiffValues h"
  shows "fst (bindNewObserving h d xs w) = Returns () \<Longrightarrow>
   (Some a \<in> set xs \<and> - 1 \<le> diffValue (observables w a)) \<or> diffValue (observables w a) = 0 \<Longrightarrow>
   diffValue (observables (snd (bindNewObserving h d xs w)) a) = 0"
proof (induction xs arbitrary: w)
  case Nil
  then show ?case by simp
next
  case (Cons x xs)
  show ?case
  proof (cases x)
    case None
    with Cons.prems show ?thesis by simp
  next
    case (Some b)
    show ?thesis
    proof (cases "b = a")
      case True
      with Cons Some show ?thesis
        by (auto simp: Let_def case_prod_beta addObserver_diffValue [OF h]
            split: outcome.splits if_splits)
    next
      case False
      with Cons Some show ?thesis
        by (auto simp: Let_def case_prod_beta addObserver_diffValue [OF h]
            split: outcome.splits if_splits)
    qed
  qed
qed

lemma bindNew_agrees:
  assumes ne: "D \<noteq> d" and h: "keepsAgreement D h"
  shows "fst (bindNewObserving h d xs w) = Returns () \<Longrightarrow> observingAgrees D w \<Longrightarrow>
   observingAgrees D (snd (bindNewObserving h d xs w))"
proof (induction xs arbitrary: w)
  case Nil
  then show ?case by simp
next
  case (Cons x xs)
  show ?case
  proof (cases x)
    case None
    with Cons.prems show ?thesis by simp
  next
    case (Some b)
    with Cons show ?thesis
      by (auto simp: Let_def case_prod_beta addObserver_agrees [OF ne h]
          split: outcome.splits if_splits)
  qed
qed

subsection \<open>unbindPrevObserving\<close>

lemma unbindPrev_returns:
  assumes h: "alwaysReturns h"
  shows "None \<notin> set xs \<Longrightarrow> fst (unbindPrevObserving h d xs w) = Returns ()"
proof (induction xs arbitrary: w)
  case Nil
  then show ?case by simp
next
  case (Cons x xs)
  then show ?case
    by (cases x) (auto simp: Let_def case_prod_beta removeObserver_returns [OF h])
qed

lemma unbindPrev_returnsD: "fst (unbindPrevObserving h d xs w) = Returns () \<Longrightarrow> None \<notin> set xs"
proof (induction xs arbitrary: w)
  case Nil
  then show ?case by simp
next
  case (Cons x xs)
  then show ?case
    by (cases x) (auto simp: Let_def case_prod_beta split: outcome.splits if_splits)
qed

lemma unbindPrev_derivation:
  assumes h: "leavesDerivation D h"
  shows "derivations (snd (unbindPrevObserving h d xs w)) D = derivations w D"
proof (induction xs arbitrary: w)
  case Nil
  then show ?case by simp
next
  case (Cons x xs)
  then show ?case
    by (cases x)
       (auto simp: Let_def case_prod_beta removeObserver_derivation [OF h] split: outcome.splits)
qed

lemma unbindPrev_nonneg:
  assumes h: "leavesDiffValues h" and l: "leavesDerivation d h"
  shows "0 \<le> diffValue (observables w a) \<Longrightarrow>
   diffValue (observables (snd (unbindPrevObserving h d xs w)) a) = diffValue (observables w a) \<and>
   (d \<in> observers (observables (snd (unbindPrevObserving h d xs w)) a))
     = (d \<in> observers (observables w a))"
proof (induction xs arbitrary: w)
  case Nil
  then show ?case by simp
next
  case (Cons x xs)
  show ?case
  proof (cases x)
    case None
    then show ?thesis by simp
  next
    case (Some b)
    show ?thesis
    proof (cases "diffValue (observables w b) < 0")
      case True
      with Cons.prems have ne: "a \<noteq> b" by auto
      let ?w1 = "snd (removeObserver h b d (upd_observable b (\<lambda>ob. ob\<lparr>diffValue := 0\<rparr>) w))"
      have d1: "diffValue (observables ?w1 a) = diffValue (observables w a)"
        using ne by (simp add: removeObserver_diffValue [OF h])
      have m1: "(d \<in> observers (observables ?w1 a)) = (d \<in> observers (observables w a))"
        using ne by (simp add: removeObserver_member [OF l])
      have "0 \<le> diffValue (observables ?w1 a)"
        using d1 Cons.prems by simp
      from Cons.IH [OF this] d1 m1 True Some show ?thesis
        by (auto simp: case_prod_beta split: outcome.splits)
    next
      case False
      with Cons Some show ?thesis by simp
    qed
  qed
qed

lemma unbindPrev_diff_untouched:
  assumes h: "leavesDiffValues h"
  shows "Some a \<notin> set xs \<Longrightarrow>
   diffValue (observables (snd (unbindPrevObserving h d xs w)) a) = diffValue (observables w a)"
proof (induction xs arbitrary: w)
  case Nil
  then show ?case by simp
next
  case (Cons x xs)
  then show ?case
    by (cases x)
       (auto simp: Let_def case_prod_beta removeObserver_diffValue [OF h] split: outcome.splits)
qed

lemma unbindPrev_gone:
  assumes l: "leavesDerivation d h"
  shows "d \<notin> observers (observables w a) \<Longrightarrow>
   d \<notin> observers (observables (snd (unbindPrevObserving h d xs w)) a)"
proof (induction xs arbitrary: w)
  case Nil
  then show ?case by simp
next
  case (Cons x xs)
  then show ?case
    by (cases x)
       (auto simp: Let_def case_prod_beta removeObserver_member [OF l] split: outcome.splits)
qed

lemma unbindPrev_removes:
  assumes h: "leavesDiffValues h" and l: "leavesDerivation d h"
  shows "fst (unbindPrevObserving h d xs w) = Returns () \<Longrightarrow>
   (Some a \<in> set xs \<and> diffValue (observables w a) < 0) \<or>
   (d \<notin> observers (observables w a) \<and> diffValue (observables w a) = 0) \<Longrightarrow>
   d \<notin> observers (observables (snd (unbindPrevObserving h d xs w)) a) \<and>
   diffValue (observables (snd (unbindPrevObserving h d xs w)) a) = 0"
proof (induction xs arbitrary: w)
  case Nil
  then show ?case by simp
next
  case (Cons x xs)
  show ?case
  proof (cases x)
    case None
    with Cons.prems show ?thesis by simp
  next
    case (Some b)
    show ?thesis
    proof (cases "b = a")
      case True
      with Cons Some show ?thesis
        by (auto simp: Let_def case_prod_beta removeObserver_diffValue [OF h]
            removeObserver_member [OF l] split: outcome.splits if_splits)
    next
      case False
      with Cons Some show ?thesis
        by (auto simp: Let_def case_prod_beta removeObserver_diffValue [OF h]
            removeObserver_member [OF l] split: outcome.splits if_splits)
    qed
  qed
qed

lemma unbindPrev_agrees:
  assumes ne: "D \<noteq> d" and h: "keepsAgreement D h"
  shows "fst (unbindPrevObserving h d xs w) = Returns () \<Longrightarrow> observingAgrees D w \<Longrightarrow>
   observingAgrees D (snd (unbindPrevObserving h d xs w))"
proof (induction xs arbitrary: w)
  case Nil
  then show ?case by simp
next
  case (Cons x xs)
  show ?case
  proof (cases x)
    case None
    with Cons.prems show ?thesis by simp
  next
    case (Some b)
    with Cons show ?thesis
      by (auto simp: Let_def case_prod_beta removeObserver_agrees [OF ne h]
          split: outcome.splits if_splits)
  qed
qed

lemma unbindPrev_diff_nonneg:
  assumes h: "leavesDiffValues h"
  shows "0 \<le> diffValue (observables w a) \<Longrightarrow>
   diffValue (observables (snd (unbindPrevObserving h d xs w)) a) = diffValue (observables w a)"
proof (induction xs arbitrary: w)
  case Nil
  then show ?case by simp
next
  case (Cons x xs)
  show ?case
  proof (cases x)
    case None
    then show ?thesis by simp
  next
    case (Some b)
    show ?thesis
    proof (cases "diffValue (observables w b) < 0")
      case True
      with Cons.prems have ne: "a \<noteq> b" by auto
      let ?w1 = "snd (removeObserver h b d (upd_observable b (\<lambda>ob. ob\<lparr>diffValue := 0\<rparr>) w))"
      have d1: "diffValue (observables ?w1 a) = diffValue (observables w a)"
        using ne by (simp add: removeObserver_diffValue [OF h])
      have "0 \<le> diffValue (observables ?w1 a)"
        using d1 Cons.prems by simp
      from Cons.IH [OF this] d1 True Some show ?thesis
        by (auto simp: case_prod_beta split: outcome.splits)
    next
      case False
      with Cons Some show ?thesis by simp
    qed
  qed
qed

lemma unbindPrev_diff_clean:
  assumes h: "leavesDiffValues h"
  shows "fst (unbindPrevObserving h d xs w) = Returns () \<Longrightarrow>
   (Some a \<in> set xs \<and> diffValue (observables w a) < 0) \<or> diffValue (observables w a) = 0 \<Longrightarrow>
   diffValue (observables (snd (unbindPrevObserving h d xs w)) a) = 0"
proof (induction xs arbitrary: w)
  case Nil
  then show ?case by simp
next
  case (Cons x xs)
  show ?case
  proof (cases x)
    case None
    with Cons.prems show ?thesis by simp
  next
    case (Some b)
    show ?thesis
    proof (cases "b = a")
      case True
      with Cons Some show ?thesis
        by (auto simp: Let_def case_prod_beta removeObserver_diffValue [OF h]
            split: outcome.splits if_splits)
    next
      case False
      with Cons Some show ?thesis
        by (auto simp: Let_def case_prod_beta removeObserver_diffValue [OF h]
            split: outcome.splits if_splits)
    qed
  qed
qed

subsection \<open>bindDependencies\<close>

lemma bindDependencies_returnsD:
  assumes "fst (bindDependencies hO hU d prev w) = Returns ()"
  shows "None \<notin> set prev"
    and "None \<notin> set (newObserving d w)"
    and "fst (bindNewObserving hO d (newObserving d w)
           (snd (markPrevObserving prev
              (upd_derivation d (\<lambda>x. x\<lparr>observing := newObserving d w\<rparr>) w)))) = Returns ()"
    and "fst (unbindPrevObserving hU d prev
           (snd (bindNewObserving hO d (newObserving d w)
              (snd (markPrevObserving prev
                 (upd_derivation d (\<lambda>x. x\<lparr>observing := newObserving d w\<rparr>) w)))))) = Returns ()"
    and "snd (bindDependencies hO hU d prev w) =
         snd (unbindPrevObserving hU d prev
           (snd (bindNewObserving hO d (newObserving d w)
              (snd (markPrevObserving prev
                 (upd_derivation d (\<lambda>x. x\<lparr>observing := newObserving d w\<rparr>) w))))))"
proof -
  let ?w1 = "upd_derivation d (\<lambda>x. x\<lparr>observing := newObserving d w\<rparr>) w"
  let ?w2 = "snd (markPrevObserving prev ?w1)"
  let ?w3 = "snd (bindNewObserving hO d (newObserving d w) ?w2)"
  have w1: "upd_derivation d
      (\<lambda>x. x\<lparr>observing := setLength (unboundDepsCount (derivations w d)) (observing x)\<rparr>) w = ?w1"
    by (simp add: newObserving_def upd_derivation_def)
  have o1: "observing (derivations ?w1 d) = newObserving d w"
    by simp
  have eq: "bindDependencies hO hU d prev w =
      (case markPrevObserving prev ?w1 of
           (Throws e, w2) \<Rightarrow> (Throws e, w2)
         | (Returns _, w2) \<Rightarrow>
             (case bindNewObserving hO d (newObserving d w) w2 of
                (Throws e, w3) \<Rightarrow> (Throws e, w3)
              | (Returns _, w3) \<Rightarrow> unbindPrevObserving hU d prev w3))"
    unfolding bindDependencies_def Let_def w1 o1 ..
  have m: "fst (markPrevObserving prev ?w1) = Returns ()"
    using assms unfolding eq by (auto simp: case_prod_beta split: outcome.splits)
  then show "None \<notin> set prev" by (rule markPrev_returnsD)
  show b: "fst (bindNewObserving hO d (newObserving d w) ?w2) = Returns ()"
    using assms m unfolding eq by (auto simp: case_prod_beta split: outcome.splits)
  then show "None \<notin> set (newObserving d w)" by (rule bindNew_returnsD)
  show "fst (unbindPrevObserving hU d prev ?w3) = Returns ()"
    using assms m b unfolding eq by (auto simp: case_prod_beta split: outcome.splits)
  show "snd (bindDependencies hO hU d prev w) = snd (unbindPrevObserving hU d prev ?w3)"
    using m b unfolding eq by (simp add: case_prod_beta)
qed

lemma bindDependencies_returns:
  assumes "alwaysReturns hO" and "alwaysReturns hU"
    and "None \<notin> set prev" and "None \<notin> set (newObserving d w)"
  shows "fst (bindDependencies hO hU d prev w) = Returns ()"
  using assms
  by (simp add: bindDependencies_def Let_def case_prod_beta newObserving_def markPrev_returns
      bindNew_returns unbindPrev_returns)

lemma bindDependencies_derivation:
  assumes ret: "fst (bindDependencies hO hU d prev w) = Returns ()"
    and "leavesDerivation D hO" and "leavesDerivation D hU"
  shows "derivations (snd (bindDependencies hO hU d prev w)) D =
           (if D = d then (derivations w d)\<lparr>observing := newObserving d w\<rparr> else derivations w D)"
  using assms(2,3)
  by (simp add: bindDependencies_returnsD(5) [OF ret] unbindPrev_derivation bindNew_derivation
      markPrev_frame)

lemma bindDependencies_diffValue:
  assumes ret: "fst (bindDependencies hO hU d prev w) = Returns ()"
    and hO: "leavesDiffValues hO" and hU: "leavesDiffValues hU"
    and touched: "Some a \<in> set prev \<or> Some a \<in> set (newObserving d w)"
    and clean: "Some a \<in> set (newObserving d w) \<Longrightarrow> - 1 \<le> diffValue (observables w a)"
  shows "diffValue (observables (snd (bindDependencies hO hU d prev w)) a) = 0"
proof -
  let ?new = "newObserving d w"
  let ?w1 = "upd_derivation d (\<lambda>x. x\<lparr>observing := newObserving d w\<rparr>) w"
  let ?w2 = "snd (markPrevObserving prev ?w1)"
  let ?w3 = "snd (bindNewObserving hO d ?new ?w2)"
  let ?w4 = "snd (unbindPrevObserving hU d prev ?w3)"
  note r = bindDependencies_returnsD [OF ret]
  have fin: "snd (bindDependencies hO hU d prev w) = ?w4" by (rule r(5))
  show ?thesis
  proof (cases "Some a \<in> set ?new")
    case True
    have "- 1 \<le> diffValue (observables ?w2 a)"
    proof (cases "Some a \<in> set prev")
      case True
      then show ?thesis using markPrev_diff_marked_aux [OF r(1), of a ?w1] by simp
    next
      case False
      then show ?thesis using markPrev_diff_other [of a prev ?w1] clean [OF True] by simp
    qed
    with True have z3: "diffValue (observables ?w3 a) = 0"
      using bindNew_clean_aux [OF hO r(3), of a] by simp
    then show ?thesis
      by (simp add: fin unbindPrev_diff_nonneg [OF hU])
  next
    case False
    with touched have p: "Some a \<in> set prev" by simp
    have "diffValue (observables ?w2 a) = - 1"
      using markPrev_diff_marked_aux [OF r(1), of a ?w1] p by simp
    with False have "diffValue (observables ?w3 a) = - 1"
      by (simp add: bindNew_diff_untouched [OF hO])
    with p show ?thesis
      using unbindPrev_diff_clean [OF hU r(4), of a] by (simp add: fin)
  qed
qed

lemma bindDependencies_agrees:
  assumes ret: "fst (bindDependencies hO hU d prev w) = Returns ()"
    and hO: "leavesDiffValues hO" and hU: "leavesDiffValues hU"
    and lO: "leavesDerivation d hO" and lU: "leavesDerivation d hU"
    and pre: "\<And>a. (d \<in> observers (observables w a)) = (Some a \<in> set prev)"
    and clean: "\<And>a. Some a \<in> set (newObserving d w) \<Longrightarrow> 0 \<le> diffValue (observables w a)"
  shows "observingAgrees d (snd (bindDependencies hO hU d prev w))"
    and "observing (derivations (snd (bindDependencies hO hU d prev w)) d) = newObserving d w"
proof -
  let ?new = "newObserving d w"
  let ?w1 = "upd_derivation d (\<lambda>x. x\<lparr>observing := newObserving d w\<rparr>) w"
  let ?w2 = "snd (markPrevObserving prev ?w1)"
  let ?w3 = "snd (bindNewObserving hO d ?new ?w2)"
  let ?w4 = "snd (unbindPrevObserving hU d prev ?w3)"
  note r = bindDependencies_returnsD [OF ret]
  have fin: "snd (bindDependencies hO hU d prev w) = ?w4" by (rule r(5))
  show ders: "observing (derivations (snd (bindDependencies hO hU d prev w)) d) = ?new"
    by (simp add: bindDependencies_derivation [OF ret lO lU])
  have obs2: "\<And>a. observers (observables ?w2 a) = observers (observables w a)"
    by (simp add: markPrev_observers)
  have "(Some a \<in> set ?new) = (d \<in> observers (observables ?w4 a))" for a
  proof (cases "Some a \<in> set ?new")
    case new: True
    have d2: "- 1 \<le> diffValue (observables ?w2 a)"
    proof (cases "Some a \<in> set prev")
      case True
      then show ?thesis using markPrev_diff_marked_aux [OF r(1), of a ?w1] by simp
    next
      case False
      then show ?thesis using markPrev_diff_other [of a prev ?w1] clean [OF new] by simp
    qed
    have in3: "d \<in> observers (observables ?w3 a)"
    proof (cases "Some a \<in> set prev")
      case True
      then have "d \<in> observers (observables ?w2 a)" by (simp add: obs2 pre)
      then show ?thesis by (rule bindNew_keeps [OF lO])
    next
      case False
      then have "0 \<le> diffValue (observables ?w2 a)"
        using markPrev_diff_other [of a prev ?w1] clean [OF new] by simp
      with new show ?thesis using r(3) by (intro bindNew_adds [OF hO lO])
    qed
    have "diffValue (observables ?w3 a) = 0"
      using bindNew_clean_aux [OF hO r(3), of a] new d2 by simp
    then have "(d \<in> observers (observables ?w4 a)) = (d \<in> observers (observables ?w3 a))"
      by (simp add: unbindPrev_nonneg [OF hU lU])
    with in3 new show ?thesis by simp
  next
    case notnew: False
    have diff3: "diffValue (observables ?w3 a) = diffValue (observables ?w2 a)"
      using notnew by (simp add: bindNew_diff_untouched [OF hO])
    have mem3: "(d \<in> observers (observables ?w3 a)) = (d \<in> observers (observables ?w2 a))"
      using notnew by (simp add: bindNew_member_untouched [OF lO])
    have "d \<notin> observers (observables ?w4 a)"
    proof (cases "Some a \<in> set prev")
      case True
      then have "diffValue (observables ?w2 a) = - 1"
        using markPrev_diff_marked_aux [OF r(1), of a ?w1] by simp
      with True show ?thesis
        using unbindPrev_removes [OF hU lU r(4), of a] by (simp add: diff3)
    next
      case False
      then have "d \<notin> observers (observables ?w3 a)"
        by (simp add: mem3 obs2 pre)
      then show ?thesis by (rule unbindPrev_gone [OF lU])
    qed
    with notnew show ?thesis by simp
  qed
  then show "observingAgrees d (snd (bindDependencies hO hU d prev w))"
    unfolding observingAgrees_def ders unfolding fin by blast
qed

lemma bindDependencies_agrees_other:
  assumes ret: "fst (bindDependencies hO hU d prev w) = Returns ()"
    and ne: "D \<noteq> d"
    and kO: "keepsAgreement D hO" and kU: "keepsAgreement D hU"
    and pre: "observingAgrees D w"
  shows "observingAgrees D (snd (bindDependencies hO hU d prev w))"
proof -
  let ?new = "newObserving d w"
  let ?w1 = "upd_derivation d (\<lambda>x. x\<lparr>observing := newObserving d w\<rparr>) w"
  let ?w2 = "snd (markPrevObserving prev ?w1)"
  let ?w3 = "snd (bindNewObserving hO d ?new ?w2)"
  note r = bindDependencies_returnsD [OF ret]
  have "observingAgrees D ?w2"
    using pre ne by (simp add: markPrev_agrees)
  then have "observingAgrees D ?w3"
    by (rule bindNew_agrees [OF ne kO r(3)])
  then show ?thesis
    unfolding r(5) by (rule unbindPrev_agrees [OF ne kU r(4)])
qed

subsection \<open>clearObserving\<close>

lemma removeObservers_returns:
  assumes h: "alwaysReturns h"
  shows "None \<notin> set xs \<Longrightarrow> fst (removeObservers h d xs w) = Returns ()"
proof (induction xs arbitrary: w)
  case Nil
  then show ?case by simp
next
  case (Cons x xs)
  then show ?case
    by (cases x) (auto simp: case_prod_beta removeObserver_returns [OF h])
qed

lemma removeObservers_returnsD: "fst (removeObservers h d xs w) = Returns () \<Longrightarrow> None \<notin> set xs"
proof (induction xs arbitrary: w)
  case Nil
  then show ?case by simp
next
  case (Cons x xs)
  then show ?case
    by (cases x) (auto simp: case_prod_beta split: outcome.splits)
qed

lemma removeObservers_derivation:
  assumes h: "leavesDerivation D h"
  shows "derivations (snd (removeObservers h d xs w)) D = derivations w D"
proof (induction xs arbitrary: w)
  case Nil
  then show ?case by simp
next
  case (Cons x xs)
  then show ?case
    by (cases x)
       (auto simp: case_prod_beta removeObserver_derivation [OF h] split: outcome.splits)
qed

lemma removeObservers_diffValue:
  assumes h: "leavesDiffValues h"
  shows "diffValue (observables (snd (removeObservers h d xs w)) a) = diffValue (observables w a)"
proof (induction xs arbitrary: w)
  case Nil
  then show ?case by simp
next
  case (Cons x xs)
  then show ?case
    by (cases x)
       (auto simp: case_prod_beta removeObserver_diffValue [OF h] split: outcome.splits)
qed

lemma removeObservers_others:
  assumes h: "leavesDerivation D h" and ne: "D \<noteq> d"
  shows "(D \<in> observers (observables (snd (removeObservers h d xs w)) a)) =
   (D \<in> observers (observables w a))"
proof (induction xs arbitrary: w)
  case Nil
  then show ?case by simp
next
  case (Cons x xs)
  then show ?case
    by (cases x)
       (auto simp: case_prod_beta removeObserver_other_member [OF h ne] split: outcome.splits)
qed

lemma removeObservers_gone:
  assumes l: "leavesDerivation d h"
  shows "d \<notin> observers (observables w a) \<Longrightarrow>
   d \<notin> observers (observables (snd (removeObservers h d xs w)) a)"
proof (induction xs arbitrary: w)
  case Nil
  then show ?case by simp
next
  case (Cons x xs)
  then show ?case
    by (cases x)
       (auto simp: case_prod_beta removeObserver_member [OF l] split: outcome.splits)
qed

lemma removeObservers_removes:
  assumes l: "leavesDerivation d h"
  shows "fst (removeObservers h d xs w) = Returns () \<Longrightarrow> Some a \<in> set xs \<Longrightarrow>
   d \<notin> observers (observables (snd (removeObservers h d xs w)) a)"
proof (induction xs arbitrary: w)
  case Nil
  then show ?case by simp
next
  case (Cons x xs)
  show ?case
  proof (cases x)
    case None
    with Cons.prems show ?thesis by simp
  next
    case (Some b)
    show ?thesis
    proof (cases "b = a")
      case True
      with Cons.prems Some show ?thesis
        by (auto simp: case_prod_beta removeObserver_member [OF l]
            intro!: removeObservers_gone [OF l] split: outcome.splits)
    next
      case False
      with Cons Some show ?thesis
        by (auto simp: case_prod_beta split: outcome.splits)
    qed
  qed
qed

lemma removeObservers_agrees:
  assumes ne: "D \<noteq> d" and h: "keepsAgreement D h"
  shows "fst (removeObservers h d xs w) = Returns () \<Longrightarrow> observingAgrees D w \<Longrightarrow>
   observingAgrees D (snd (removeObservers h d xs w))"
proof (induction xs arbitrary: w)
  case Nil
  then show ?case by simp
next
  case (Cons x xs)
  show ?case
  proof (cases x)
    case None
    with Cons.prems show ?thesis by simp
  next
    case (Some b)
    with Cons show ?thesis
      by (auto simp: case_prod_beta removeObserver_agrees [OF ne h] split: outcome.splits)
  qed
qed

lemma clearObserving_returnsD:
  assumes "fst (clearObserving h d w) = Returns ()"
  shows "fst (removeObservers h d (observing (derivations w d)) w) = Returns ()"
    and "None \<notin> set (observing (derivations w d))"
    and "snd (clearObserving h d w) =
           upd_derivation d (\<lambda>x. x\<lparr>observing := []\<rparr>)
             (snd (removeObservers h d (observing (derivations w d)) w))"
proof -
  show r: "fst (removeObservers h d (observing (derivations w d)) w) = Returns ()"
    using assms by (auto simp: clearObserving_def case_prod_beta split: outcome.splits)
  then show "None \<notin> set (observing (derivations w d))"
    by (rule removeObservers_returnsD)
  show "snd (clearObserving h d w) =
           upd_derivation d (\<lambda>x. x\<lparr>observing := []\<rparr>)
             (snd (removeObservers h d (observing (derivations w d)) w))"
    using r by (simp add: clearObserving_def case_prod_beta)
qed

lemma clearObserving_returns:
  assumes "alwaysReturns h" and "None \<notin> set (observing (derivations w d))"
  shows "fst (clearObserving h d w) = Returns ()"
  using assms by (simp add: clearObserving_def case_prod_beta removeObservers_returns)

lemma clearObserving_others:
  assumes h: "leavesDerivation D h" and ne: "D \<noteq> d"
  shows "derivations (snd (clearObserving h d w)) D = derivations w D"
    and "(D \<in> observers (observables (snd (clearObserving h d w)) a)) =
         (D \<in> observers (observables w a))"
  using ne
  by (auto simp: clearObserving_def case_prod_beta removeObservers_derivation [OF h]
      removeObservers_others [OF h ne] split: outcome.splits)

lemma clearObserving_diffValue:
  assumes h: "leavesDiffValues h"
  shows "diffValue (observables (snd (clearObserving h d w)) a) = diffValue (observables w a)"
  by (auto simp: clearObserving_def case_prod_beta removeObservers_diffValue [OF h]
      split: outcome.splits)

lemma clearObserving_derivation:
  assumes ret: "fst (clearObserving h d w) = Returns ()" and l: "leavesDerivation d h"
  shows "derivations (snd (clearObserving h d w)) d = (derivations w d)\<lparr>observing := []\<rparr>"
  by (simp add: clearObserving_returnsD(3) [OF ret] removeObservers_derivation [OF l])

lemma clearObserving_removes:
  assumes ret: "fst (clearObserving h d w) = Returns ()" and l: "leavesDerivation d h"
  shows "observing (derivations (snd (clearObserving h d w)) d) = []"
    and "Some a \<in> set (observing (derivations w d)) \<Longrightarrow>
           d \<notin> observers (observables (snd (clearObserving h d w)) a)"
    and "d \<notin> observers (observables w a) \<Longrightarrow>
           d \<notin> observers (observables (snd (clearObserving h d w)) a)"
  by (simp_all add: clearObserving_returnsD(3) [OF ret]
      removeObservers_removes [OF l clearObserving_returnsD(1) [OF ret]] removeObservers_gone [OF l])

lemma clearObserving_agrees:
  assumes ret: "fst (clearObserving h d w) = Returns ()" and l: "leavesDerivation d h"
    and pre: "observingAgrees d w"
  shows "observingAgrees d (snd (clearObserving h d w))"
proof -
  have "d \<notin> observers (observables (snd (clearObserving h d w)) a)" for a
  proof (cases "Some a \<in> set (observing (derivations w d))")
    case True
    then show ?thesis by (rule clearObserving_removes(2) [OF ret l])
  next
    case False
    then have "d \<notin> observers (observables w a)"
      using observingAgreesD [OF pre, of a] by simp
    then show ?thesis by (rule clearObserving_removes(3) [OF ret l])
  qed
  then show ?thesis
    by (simp add: observingAgrees_def clearObserving_removes(1) [OF ret l])
qed

lemma clearObserving_agrees_other:
  assumes ret: "fst (clearObserving h d w) = Returns ()"
    and ne: "D \<noteq> d" and k: "keepsAgreement D h"
    and pre: "observingAgrees D w"
  shows "observingAgrees D (snd (clearObserving h d w))"
proof -
  note r = clearObserving_returnsD [OF ret]
  have "observingAgrees D (snd (removeObservers h d (observing (derivations w d)) w))"
    using r(1) pre by (rule removeObservers_agrees [OF ne k])
  then show ?thesis
    using ne by (simp add: r(3))
qed

subsection \<open>trackDerivedFunction\<close>

lemma trackCatch_simps:
  "fst (trackCatch resetGlobalState d prev e w) = Throws e"
  "globalState (snd (trackCatch resetGlobalState d prev e w)) = resetGlobalState (globalState w)"
  "console (snd (trackCatch resetGlobalState d prev e w)) = console w @ [(name (derivations w d), e)]"
  "observables (snd (trackCatch resetGlobalState d prev e w)) = observables w"
  "user (snd (trackCatch resetGlobalState d prev e w)) = user w"
  "derivations (snd (trackCatch resetGlobalState d prev e w)) =
     (derivations w)(d := (derivations w d)\<lparr>unboundDepsCount := 0, observing := prev\<rparr>)"
  by (simp_all add: trackCatch_def Let_def upd_derivation_def upd_global_def)

lemma trackCatch_throws [simp]:
  "trackCatch resetGlobalState d prev e w \<noteq> (Returns result, w2)"
  by (simp add: trackCatch_def Let_def)

lemma observersConsistent_cong:
  "derivations w = derivations w' \<Longrightarrow> observables w = observables w' \<Longrightarrow>
   observersConsistent w = observersConsistent w'"
  by (simp add: observersConsistent_def)

lemma observersConsistentD:
  "observersConsistent w \<Longrightarrow>
   (Some a \<in> set (observing (derivations w d))) = (d \<in> observers (observables w a))"
  by (simp add: observersConsistent_def)

lemma trackDerivedFunction_returns:
  assumes f: "f (trackStart d w) = (Returns result, w1)"
    and stack: "derivationStack (globalState w1) \<noteq> []"
    and hO: "alwaysReturns hO" and hU: "alwaysReturns hU"
    and nh1: "None \<notin> set (observing (derivations w d))"
    and nh2: "None \<notin> set (newObserving d w1)"
  shows "trackDerivedFunction resetGlobalState hO hU d f w =
     (Returns result,
      snd (bindDependencies hO hU d (observing (derivations w d))
        (upd_global (\<lambda>g. g\<lparr>derivationStack := butlast (derivationStack g)\<rparr>)
          (upd_global (\<lambda>g. g\<lparr>isTracking := isTracking (globalState w)\<rparr>) w1))))"
proof -
  let ?w3 = "upd_global (\<lambda>g. g\<lparr>derivationStack := butlast (derivationStack g)\<rparr>)
          (upd_global (\<lambda>g. g\<lparr>isTracking := isTracking (globalState w)\<rparr>) w1)"
  have nh2': "None \<notin> set (newObserving d ?w3)"
    using nh2 by (simp add: newObserving_def)
  have "fst (bindDependencies hO hU d (observing (derivations w d)) ?w3) = Returns ()"
    by (rule bindDependencies_returns [OF hO hU nh1 nh2'])
  then show ?thesis
    using f stack by (simp add: trackDerivedFunction_def Let_def case_prod_beta)
qed

lemma trackDerivedFunction_returnsD:
  assumes "trackDerivedFunction resetGlobalState hO hU d f w = (Returns result, w2)"
  shows "fst (f (trackStart d w)) = Returns result"
    and "derivationStack (globalState (snd (f (trackStart d w)))) \<noteq> []"
    and "fst (bindDependencies hO hU d (observing (derivations w d))
           (upd_global (\<lambda>g. g\<lparr>derivationStack := butlast (derivationStack g)\<rparr>)
             (upd_global (\<lambda>g. g\<lparr>isTracking := isTracking (globalState w)\<rparr>)
                (snd (f (trackStart d w)))))) = Returns ()"
    and "snd (bindDependencies hO hU d (observing (derivations w d))
           (upd_global (\<lambda>g. g\<lparr>derivationStack := butlast (derivationStack g)\<rparr>)
             (upd_global (\<lambda>g. g\<lparr>isTracking := isTracking (globalState w)\<rparr>)
                (snd (f (trackStart d w)))))) = w2"
  using assms
  by (auto simp: trackDerivedFunction_def Let_def case_prod_beta
      split: outcome.splits if_splits prod.splits)

section \<open>Claims about tracking and binding\<close>

lemma reads_frame:
  "fst (reads as w) = Returns ()"
  "observables (snd (reads as w)) = observables w"
  "globalState (snd (reads as w)) = globalState w"
  "console (snd (reads as w)) = console w"
  "user (snd (reads as w)) = user w"
  by (induction as arbitrary: w) (simp_all add: reportObserved_def Let_def)

lemma trackStart_simps:
  "observables (trackStart d w) = observables w"
  "console (trackStart d w) = console w"
  "user (trackStart d w) = user w"
  "isTracking (globalState (trackStart d w))"
  "derivationStack (globalState (trackStart d w)) = derivationStack (globalState w) @ [d]"
  "unboundDepsCount (derivations (trackStart d w) d) = 0"
  "D \<noteq> d \<Longrightarrow> derivations (trackStart d w) D = derivations w D"
  by (simp_all add: trackStart_def Let_def)

lemma coolDown_leaves:
  "leavesDiffValues coolDown"
  "D \<noteq> 3 \<Longrightarrow> leavesDerivation D coolDown"
  by (simp_all add: leavesDiffValues_def leavesDerivation_def coolDown_def
      clearObserving_diffValue [OF noop_hook(2)] clearObserving_others [OF noop_hook(3)])

lemma coolDown_keeps:
  "keepsAgreement D (coolDown :: oid \<Rightarrow> 'u world \<Rightarrow> unit outcome \<times> 'u world)"
proof -
  show ?thesis
    unfolding keepsAgreement_def
  proof (intro allI impI)
    fix a and w :: "'u world"
    assume h: "observingAgrees D w \<and> fst (coolDown a w) = Returns ()"
    show "observingAgrees D (snd (coolDown a w))"
    proof (cases "a = 3")
      case False
      with h show ?thesis by (simp add: coolDown_def)
    next
      case True
      with h have ret: "fst (clearObserving noop 3 w) = Returns ()"
        by (simp add: coolDown_def)
      have "observingAgrees D (snd (clearObserving noop 3 w))"
      proof (cases "D = 3")
        case True
        with h show ?thesis
          using clearObserving_agrees [OF ret noop_hook(3)] by simp
      next
        case False
        with h show ?thesis
          using clearObserving_agrees_other [OF ret False noop_hook(4)] by simp
      qed
      with True show ?thesis by (simp add: coolDown_def)
    qed
  qed
qed

text \<open>
  C1, as stated, fails inside a tracking run: the inner run of derivation 8, made while
  reaction 7 is being tracked, is a completed tracking run, and when it has returned
  reaction 7 is in the observer set of observable 2 although 2 is not in the
  \<open>observing\<close> array of 7, which holds what this run of 7 has read so far.  The list
  of derivation 8 does agree with the observer sets.
\<close>

theorem inner_run_counterexample:
  "fst (trackDerivedFunction resetExample noop noop 8 (reads [3]) midRunWorld) = Returns () \<and>
   observing (derivations
     (snd (trackDerivedFunction resetExample noop noop 8 (reads [3]) midRunWorld)) 8) = [Some 3] \<and>
   8 \<in> observers (observables
     (snd (trackDerivedFunction resetExample noop noop 8 (reads [3]) midRunWorld)) 3) \<and>
   7 \<in> observers (observables
     (snd (trackDerivedFunction resetExample noop noop 8 (reads [3]) midRunWorld)) 2) \<and>
   Some 2 \<notin> set (observing (derivations
     (snd (trackDerivedFunction resetExample noop noop 8 (reads [3]) midRunWorld)) 7))"
  by code_simp

text \<open>
  C1 (amended): after a completed tracking run of a derivation \<open>d\<close>, an observable is in
  the \<open>observing\<close> list of \<open>d\<close> exactly when \<open>d\<close> is in the observable's observer set,
  the list is what the run has read, and every other derivation whose list agreed with
  the observer sets when the tracked function returned still agrees; the same holds after
  \<open>clearObserving\<close>, which leaves the list of \<open>d\<close> empty.  What is assumed: the
  tracked function leaves \<open>d\<close> in the observer sets in which it was before the run, that
  is, of the observables of its previous list; what the run has read has no negative
  \<open>diffValue\<close>; the hooks leave every \<open>diffValue\<close> and the derivation \<open>d\<close> alone, and,
  for another derivation, keep its agreement.  The run and \<open>clearObserving\<close> do return
  when the hooks return, the stack is not empty and the lists have no holes.
\<close>

theorem completed_run_agrees_with_observers:
  "(leavesDiffValues onBecomeObserved \<and> leavesDiffValues onBecomeUnobserved \<and>
    leavesDerivation d onBecomeObserved \<and> leavesDerivation d onBecomeUnobserved \<and>
    f (trackStart d w) = (Returns result, w1) \<and>
    (\<forall>a. (d \<in> observers (observables w1 a)) = (Some a \<in> set (observing (derivations w d)))) \<and>
    diffValuesFrom 0 (newObserving d w1) w1
    \<longrightarrow> (trackDerivedFunction resetGlobalState onBecomeObserved onBecomeUnobserved d f w
            = (Returns result, w2)
          \<longrightarrow> observingAgrees d w2 \<and> observing (derivations w2 d) = newObserving d w1 \<and>
              (\<forall>D. D \<noteq> d \<and> keepsAgreement D onBecomeObserved \<and>
                    keepsAgreement D onBecomeUnobserved \<and> observingAgrees D w1
                    \<longrightarrow> observingAgrees D w2)) \<and>
         (alwaysReturns onBecomeObserved \<and> alwaysReturns onBecomeUnobserved \<and>
          derivationStack (globalState w1) \<noteq> [] \<and>
          None \<notin> set (observing (derivations w d)) \<and> None \<notin> set (newObserving d w1)
          \<longrightarrow> fst (trackDerivedFunction resetGlobalState onBecomeObserved onBecomeUnobserved d f w)
                = Returns result)) \<and>
   (leavesDerivation d onBecomeUnobserved \<and> observingAgrees d w
    \<longrightarrow> (clearObserving onBecomeUnobserved d w = (Returns (), w2)
          \<longrightarrow> observingAgrees d w2 \<and> observing (derivations w2 d) = [] \<and>
              (\<forall>D. D \<noteq> d \<and> keepsAgreement D onBecomeUnobserved \<and> observingAgrees D w
                    \<longrightarrow> observingAgrees D w2)) \<and>
         (alwaysReturns onBecomeUnobserved \<and> None \<notin> set (observing (derivations w d))
          \<longrightarrow> fst (clearObserving onBecomeUnobserved d w) = Returns ()))"
proof (intro conjI impI allI)
  let ?t = "trackDerivedFunction resetGlobalState onBecomeObserved onBecomeUnobserved d f w"
  let ?w3 = "upd_global (\<lambda>g. g\<lparr>derivationStack := butlast (derivationStack g)\<rparr>)
          (upd_global (\<lambda>g. g\<lparr>isTracking := isTracking (globalState w)\<rparr>) w1)"
  assume h: "leavesDiffValues onBecomeObserved \<and> leavesDiffValues onBecomeUnobserved \<and>
    leavesDerivation d onBecomeObserved \<and> leavesDerivation d onBecomeUnobserved \<and>
    f (trackStart d w) = (Returns result, w1) \<and>
    (\<forall>a. (d \<in> observers (observables w1 a)) = (Some a \<in> set (observing (derivations w d)))) \<and>
    diffValuesFrom 0 (newObserving d w1) w1"
  then have hO: "leavesDiffValues onBecomeObserved" and hU: "leavesDiffValues onBecomeUnobserved"
    and lO: "leavesDerivation d onBecomeObserved" and lU: "leavesDerivation d onBecomeUnobserved"
    and f: "f (trackStart d w) = (Returns result, w1)"
    and pre: "\<And>a. (d \<in> observers (observables ?w3 a)) = (Some a \<in> set (observing (derivations w d)))"
    and clean: "\<And>a. Some a \<in> set (newObserving d ?w3) \<Longrightarrow> 0 \<le> diffValue (observables ?w3 a)"
    by (simp_all add: diffValuesFrom_def newObserving_def)
  {
    assume t: "?t = (Returns result, w2)"
    have ret: "fst (bindDependencies onBecomeObserved onBecomeUnobserved d
        (observing (derivations w d)) ?w3) = Returns ()"
      using trackDerivedFunction_returnsD(3) [OF t] f by simp
    have w2: "snd (bindDependencies onBecomeObserved onBecomeUnobserved d
        (observing (derivations w d)) ?w3) = w2"
      using trackDerivedFunction_returnsD(4) [OF t] f by simp
    show "observingAgrees d w2"
      using bindDependencies_agrees(1) [OF ret hO hU lO lU pre clean] by (simp add: w2)
    show "observing (derivations w2 d) = newObserving d w1"
      using bindDependencies_agrees(2) [OF ret hO hU lO lU pre clean]
      by (simp add: w2 newObserving_def)
    fix D
    assume o: "D \<noteq> d \<and> keepsAgreement D onBecomeObserved \<and>
        keepsAgreement D onBecomeUnobserved \<and> observingAgrees D w1"
    then have "observingAgrees D ?w3" by simp
    with o show "observingAgrees D w2"
      using bindDependencies_agrees_other [OF ret, of D] by (simp add: w2)
  }
  {
    assume "alwaysReturns onBecomeObserved \<and> alwaysReturns onBecomeUnobserved \<and>
          derivationStack (globalState w1) \<noteq> [] \<and>
          None \<notin> set (observing (derivations w d)) \<and> None \<notin> set (newObserving d w1)"
    then show "fst ?t = Returns result"
      using trackDerivedFunction_returns
        [where f = f and d = d and w = w and result = result and ?w1.0 = w1
           and hO = onBecomeObserved and hU = onBecomeUnobserved
           and resetGlobalState = resetGlobalState] f
      by simp
  }
next
  assume h: "leavesDerivation d onBecomeUnobserved \<and> observingAgrees d w"
  {
    assume c: "clearObserving onBecomeUnobserved d w = (Returns (), w2)"
    then have ret: "fst (clearObserving onBecomeUnobserved d w) = Returns ()"
      and w2: "snd (clearObserving onBecomeUnobserved d w) = w2"
      by simp_all
    show "observingAgrees d w2"
      using clearObserving_agrees [OF ret] h by (simp add: w2)
    show "observing (derivations w2 d) = []"
      using clearObserving_removes(1) [OF ret] h by (simp add: w2)
    fix D
    assume "D \<noteq> d \<and> keepsAgreement D onBecomeUnobserved \<and> observingAgrees D w"
    then show "observingAgrees D w2"
      using clearObserving_agrees_other [OF ret, of D] by (simp add: w2)
  }
  {
    assume "alwaysReturns onBecomeUnobserved \<and> None \<notin> set (observing (derivations w d))"
    then show "fst (clearObserving onBecomeUnobserved d w) = Returns ()"
      by (simp add: clearObserving_returns)
  }
qed

theorem completed_run_agrees_with_observers_witness:
  "leavesDiffValues (noop :: oid \<Rightarrow> unit world \<Rightarrow> unit outcome \<times> unit world) \<and>
   leavesDerivation 8 (noop :: oid \<Rightarrow> unit world \<Rightarrow> unit outcome \<times> unit world) \<and>
   alwaysReturns (noop :: oid \<Rightarrow> unit world \<Rightarrow> unit outcome \<times> unit world) \<and>
   reads [3] (trackStart 8 midRunWorld)
     = (Returns (), snd (reads [3] (trackStart 8 midRunWorld))) \<and>
   (\<forall>a. (8 \<in> observers (observables (snd (reads [3] (trackStart 8 midRunWorld))) a))
        = (Some a \<in> set (observing (derivations midRunWorld 8)))) \<and>
   diffValuesFrom 0 (newObserving 8 (snd (reads [3] (trackStart 8 midRunWorld))))
     (snd (reads [3] (trackStart 8 midRunWorld))) \<and>
   derivationStack (globalState (snd (reads [3] (trackStart 8 midRunWorld)))) \<noteq> [] \<and>
   None \<notin> set (observing (derivations midRunWorld 8)) \<and>
   None \<notin> set (newObserving 8 (snd (reads [3] (trackStart 8 midRunWorld)))) \<and>
   fst (trackDerivedFunction resetExample noop noop 8 (reads [3]) midRunWorld) = Returns () \<and>
   observingAgrees 8 (snd (trackDerivedFunction resetExample noop noop 8 (reads [3]) midRunWorld)) \<and>
   observing (derivations
     (snd (trackDerivedFunction resetExample noop noop 8 (reads [3]) midRunWorld)) 8) = [Some 3] \<and>
   leavesDiffValues (coolDown :: oid \<Rightarrow> unit world \<Rightarrow> unit outcome \<times> unit world) \<and>
   leavesDerivation 7 (coolDown :: oid \<Rightarrow> unit world \<Rightarrow> unit outcome \<times> unit world) \<and>
   keepsAgreement 3 (coolDown :: oid \<Rightarrow> unit world \<Rightarrow> unit outcome \<times> unit world) \<and>
   reads [1] (trackStart 7 computedWorld)
     = (Returns (), snd (reads [1] (trackStart 7 computedWorld))) \<and>
   (\<forall>a. (7 \<in> observers (observables (snd (reads [1] (trackStart 7 computedWorld))) a))
        = (Some a \<in> set (observing (derivations computedWorld 7)))) \<and>
   diffValuesFrom 0 (newObserving 7 (snd (reads [1] (trackStart 7 computedWorld))))
     (snd (reads [1] (trackStart 7 computedWorld))) \<and>
   observingAgrees 3 (snd (reads [1] (trackStart 7 computedWorld))) \<and>
   fst (trackDerivedFunction resetExample noop coolDown 7 (reads [1]) computedWorld) = Returns () \<and>
   observingAgrees 7
     (snd (trackDerivedFunction resetExample noop coolDown 7 (reads [1]) computedWorld)) \<and>
   observing (derivations
     (snd (trackDerivedFunction resetExample noop coolDown 7 (reads [1]) computedWorld)) 7)
     = [Some 1] \<and>
   observingAgrees 3
     (snd (trackDerivedFunction resetExample noop coolDown 7 (reads [1]) computedWorld)) \<and>
   observing (derivations
     (snd (trackDerivedFunction resetExample noop coolDown 7 (reads [1]) computedWorld)) 3) = [] \<and>
   3 \<notin> observers (observables
     (snd (trackDerivedFunction resetExample noop coolDown 7 (reads [1]) computedWorld)) 4) \<and>
   observingAgrees 7 computedWorld \<and> observingAgrees 3 computedWorld \<and>
   fst (clearObserving coolDown 7 computedWorld) = Returns () \<and>
   observingAgrees 7 (snd (clearObserving coolDown 7 computedWorld)) \<and>
   observing (derivations (snd (clearObserving coolDown 7 computedWorld)) 7) = [] \<and>
   observingAgrees 3 (snd (clearObserving coolDown 7 computedWorld)) \<and>
   observing (derivations (snd (clearObserving coolDown 7 computedWorld)) 3) = [] \<and>
   observingAgrees 7 boundWorld \<and>
   None \<notin> set (observing (derivations boundWorld 7)) \<and>
   fst (clearObserving noop 7 boundWorld) = Returns ()"
proof -
  let ?noop = "noop :: oid \<Rightarrow> unit world \<Rightarrow> unit outcome \<times> unit world"
  let ?cool = "coolDown :: oid \<Rightarrow> unit world \<Rightarrow> unit outcome \<times> unit world"
  let ?a1 = "snd (reads [3] (trackStart 8 midRunWorld))"
  let ?a2 = "snd (trackDerivedFunction resetExample noop noop 8 (reads [3]) midRunWorld)"
  let ?b1 = "snd (reads [1] (trackStart 7 computedWorld))"
  let ?b2 = "snd (trackDerivedFunction resetExample noop coolDown 7 (reads [1]) computedWorld)"
  let ?c2 = "snd (clearObserving coolDown 7 computedWorld)"
  have n: "leavesDiffValues ?noop" "leavesDerivation 8 ?noop" "alwaysReturns ?noop"
    "leavesDerivation 7 ?noop" "keepsAgreement 3 ?noop"
    by (simp_all add: noop_hook)
  have c: "leavesDiffValues ?cool" "leavesDerivation 7 ?cool" "keepsAgreement 3 ?cool"
    by (simp_all add: coolDown_leaves coolDown_keeps)
  have fa: "reads [3] (trackStart 8 midRunWorld) = (Returns (), ?a1)"
    using reads_frame(1) [of "[3]" "trackStart 8 midRunWorld"] by (metis prod.collapse)
  have obsa: "observables ?a1 = observables boundWorld"
    by (simp only: reads_frame trackStart_simps midRunWorld_def)
       (simp add: reportObserved_def trackStart_simps Let_def)
  have preva: "observing (derivations midRunWorld 8) = []"
    by code_simp
  have mema: "\<forall>a. (8 \<in> observers (observables ?a1 a))
        = (Some a \<in> set (observing (derivations midRunWorld 8)))"
    unfolding obsa preva by (simp add: boundWorld_def noObservable_def)
  have newa: "newObserving 8 ?a1 = [Some 3]"
    by code_simp
  have cleana: "diffValuesFrom 0 (newObserving 8 ?a1) ?a1"
    unfolding diffValuesFrom_def newa obsa by (auto simp: boundWorld_def noObservable_def)
  have stacka: "derivationStack (globalState ?a1) \<noteq> []"
    by (simp only: reads_frame trackStart_simps) simp
  have nha: "None \<notin> set (observing (derivations midRunWorld 8))"
    "None \<notin> set (newObserving 8 ?a1)"
    unfolding preva newa by simp_all
  note A = completed_run_agrees_with_observers
    [where onBecomeObserved = ?noop and onBecomeUnobserved = ?noop and d = 8
       and f = "reads [3]" and w = midRunWorld and result = "()" and ?w1.0 = ?a1
       and resetGlobalState = resetExample and ?w2.0 = ?a2]
  have reta: "fst (trackDerivedFunction resetExample noop noop 8 (reads [3]) midRunWorld) = Returns ()"
    using A n fa mema cleana stacka nha by blast
  then have ta: "trackDerivedFunction resetExample noop noop 8 (reads [3]) midRunWorld
      = (Returns (), ?a2)"
    by (simp add: prod_eq_iff)
  have resa: "observingAgrees 8 ?a2" "observing (derivations ?a2 8) = [Some 3]"
    using A n fa mema cleana ta newa by (simp_all del: reads.simps)
  have fb: "reads [1] (trackStart 7 computedWorld) = (Returns (), ?b1)"
    using reads_frame(1) [of "[1]" "trackStart 7 computedWorld"] by (metis prod.collapse)
  have obsb: "observables ?b1 = observables computedWorld"
    by (simp only: reads_frame trackStart_simps)
  have prevb: "observing (derivations computedWorld 7) = [Some 1, Some 3]"
    by (simp add: computedWorld_def)
  have memb: "\<forall>a. (7 \<in> observers (observables ?b1 a))
        = (Some a \<in> set (observing (derivations computedWorld 7)))"
    unfolding obsb prevb by (simp add: computedWorld_def noObservable_def)
  have newb: "newObserving 7 ?b1 = [Some 1]"
    by code_simp
  have cleanb: "diffValuesFrom 0 (newObserving 7 ?b1) ?b1"
    unfolding diffValuesFrom_def newb obsb by (auto simp: computedWorld_def noObservable_def)
  have d3: "observing (derivations ?b1 3) = [Some 4]"
    by code_simp
  have ag3b: "observingAgrees 3 ?b1"
    unfolding observingAgrees_def obsb d3 by (simp add: computedWorld_def noObservable_def)
  have retb: "fst (trackDerivedFunction resetExample noop coolDown 7 (reads [1]) computedWorld)
      = Returns ()"
    by code_simp
  then have tb: "trackDerivedFunction resetExample noop coolDown 7 (reads [1]) computedWorld
      = (Returns (), ?b2)"
    by (simp add: prod_eq_iff)
  note B = completed_run_agrees_with_observers
    [where onBecomeObserved = ?noop and onBecomeUnobserved = ?cool and d = 7
       and f = "reads [1]" and w = computedWorld and result = "()" and ?w1.0 = ?b1
       and resetGlobalState = resetExample and ?w2.0 = ?b2]
  have resb: "observingAgrees 7 ?b2" "observing (derivations ?b2 7) = [Some 1]"
    using B n c fb memb cleanb tb newb by (simp_all del: reads.simps)
  have "(3::nat) \<noteq> 7 \<and> keepsAgreement 3 ?noop \<and> keepsAgreement 3 ?cool \<and> observingAgrees 3 ?b1"
    using n c ag3b by (simp del: reads.simps)
  then have res3b: "observingAgrees 3 ?b2"
    using B n c fb memb cleanb tb by blast
  have evb: "observing (derivations ?b2 3) = []" "3 \<notin> observers (observables ?b2 4)"
    by code_simp+
  have ag7: "observingAgrees 7 computedWorld"
    unfolding observingAgrees_def prevb by (simp add: computedWorld_def noObservable_def)
  have ag3: "observingAgrees 3 computedWorld"
    unfolding observingAgrees_def by (simp add: computedWorld_def noObservable_def)
  have retc: "fst (clearObserving coolDown 7 computedWorld) = Returns ()"
    by code_simp
  then have tc: "clearObserving coolDown 7 computedWorld = (Returns (), ?c2)"
    by (simp add: prod_eq_iff)
  note C = completed_run_agrees_with_observers
    [where onBecomeUnobserved = ?cool and d = 7 and w = computedWorld and ?w2.0 = ?c2
       and onBecomeObserved = ?noop and f = "reads []" and result = "()"
       and ?w1.0 = computedWorld and resetGlobalState = resetExample]
  have resc: "observingAgrees 7 ?c2" "observing (derivations ?c2 7) = []"
    using C c ag7 tc by blast+
  have "(3::nat) \<noteq> 7 \<and> keepsAgreement 3 ?cool \<and> observingAgrees 3 computedWorld"
    using c ag3 by simp
  then have res3c: "observingAgrees 3 ?c2"
    using C c ag7 tc by blast
  have evc: "observing (derivations ?c2 3) = []"
    by code_simp
  have prevd: "observing (derivations boundWorld 7) = [Some 1, Some 2]"
    by (simp add: boundWorld_def)
  have agd: "observingAgrees 7 boundWorld"
    unfolding observingAgrees_def prevd by (simp add: boundWorld_def noObservable_def)
  have nhd: "None \<notin> set (observing (derivations boundWorld 7))"
    by (simp add: prevd)
  note D = completed_run_agrees_with_observers
    [where onBecomeUnobserved = ?noop and d = 7 and w = boundWorld
       and ?w2.0 = "snd (clearObserving noop 7 boundWorld)"
       and onBecomeObserved = ?noop and f = "reads []" and result = "()"
       and ?w1.0 = boundWorld and resetGlobalState = resetExample]
  have retd: "fst (clearObserving noop 7 boundWorld) = Returns ()"
    using D n agd nhd by blast
  show ?thesis
    using n c fa mema cleana stacka nha reta resa fb memb cleanb ag3b retb resb res3b evb
      ag7 ag3 retc resc res3c evc agd nhd retd
    by blast
qed

text \<open>
  C7: \<open>bindDependencies\<close>, when it returns, leaves the \<open>diffValue\<close> of every
  observable of the previous and of the new \<open>observing\<close> list at zero, and it returns
  when the hooks do.  The lists have no holes, the observables of the new list enter with
  a \<open>diffValue\<close> of at least \<open>-1\<close>, as they do when every earlier run has left them
  at zero, and the hooks leave every \<open>diffValue\<close> and the derivation that is being
  bound alone.  The new list is the \<open>observing\<close> list of the derivation afterwards.
\<close>

theorem bindDependencies_leaves_diffValue_zero:
  "leavesDiffValues onBecomeObserved \<and> leavesDiffValues onBecomeUnobserved \<and>
   leavesDerivation d onBecomeObserved \<and> leavesDerivation d onBecomeUnobserved \<and>
   None \<notin> set prevObserving \<and> None \<notin> set (newObserving d w) \<and>
   diffValuesFrom (- 1) (newObserving d w) w
   \<longrightarrow> (alwaysReturns onBecomeObserved \<and> alwaysReturns onBecomeUnobserved
         \<longrightarrow> fst (bindDependencies onBecomeObserved onBecomeUnobserved d prevObserving w)
               = Returns ()) \<and>
       (fst (bindDependencies onBecomeObserved onBecomeUnobserved d prevObserving w) = Returns ()
         \<longrightarrow> (\<forall>a. Some a \<in> set prevObserving \<or>
                  Some a \<in> set (observing (derivations
                    (snd (bindDependencies onBecomeObserved onBecomeUnobserved d prevObserving w))
                    d))
                  \<longrightarrow> diffValue (observables
                        (snd (bindDependencies onBecomeObserved onBecomeUnobserved d prevObserving w))
                        a) = 0) \<and>
             observing (derivations
               (snd (bindDependencies onBecomeObserved onBecomeUnobserved d prevObserving w)) d)
               = newObserving d w)"
proof (intro impI conjI allI)
  assume h: "leavesDiffValues onBecomeObserved \<and> leavesDiffValues onBecomeUnobserved \<and>
   leavesDerivation d onBecomeObserved \<and> leavesDerivation d onBecomeUnobserved \<and>
   None \<notin> set prevObserving \<and> None \<notin> set (newObserving d w) \<and>
   diffValuesFrom (- 1) (newObserving d w) w"
  {
    assume "alwaysReturns onBecomeObserved \<and> alwaysReturns onBecomeUnobserved"
    with h show "fst (bindDependencies onBecomeObserved onBecomeUnobserved d prevObserving w)
        = Returns ()"
      by (simp add: bindDependencies_returns)
  }
  assume ret: "fst (bindDependencies onBecomeObserved onBecomeUnobserved d prevObserving w)
      = Returns ()"
  from h have hO: "leavesDiffValues onBecomeObserved"
    and hU: "leavesDiffValues onBecomeUnobserved"
    and lO: "leavesDerivation d onBecomeObserved"
    and lU: "leavesDerivation d onBecomeUnobserved" by simp_all
  show new: "observing (derivations
      (snd (bindDependencies onBecomeObserved onBecomeUnobserved d prevObserving w)) d)
      = newObserving d w"
    by (simp add: bindDependencies_derivation [OF ret lO lU])
  fix a
  assume "Some a \<in> set prevObserving \<or>
      Some a \<in> set (observing (derivations
        (snd (bindDependencies onBecomeObserved onBecomeUnobserved d prevObserving w)) d))"
  then have touched: "Some a \<in> set prevObserving \<or> Some a \<in> set (newObserving d w)"
    unfolding new .
  show "diffValue (observables
      (snd (bindDependencies onBecomeObserved onBecomeUnobserved d prevObserving w)) a) = 0"
    using ret hO hU touched
  proof (rule bindDependencies_diffValue)
    assume "Some a \<in> set (newObserving d w)"
    with h show "- 1 \<le> diffValue (observables w a)"
      by (simp add: diffValuesFrom_def)
  qed
qed

theorem bindDependencies_leaves_diffValue_zero_witness:
  "leavesDiffValues (noop :: oid \<Rightarrow> unit world \<Rightarrow> unit outcome \<times> unit world) \<and>
   alwaysReturns (noop :: oid \<Rightarrow> unit world \<Rightarrow> unit outcome \<times> unit world) \<and>
   leavesDerivation 7 (noop :: oid \<Rightarrow> unit world \<Rightarrow> unit outcome \<times> unit world) \<and>
   None \<notin> set [Some 1, Some (2::nat)] \<and>
   None \<notin> set (newObserving 7 (snd (readsAction (trackStart 7 boundWorld)))) \<and>
   diffValuesFrom (- 1) (newObserving 7 (snd (readsAction (trackStart 7 boundWorld))))
     (snd (readsAction (trackStart 7 boundWorld))) \<and>
   newObserving 7 (snd (readsAction (trackStart 7 boundWorld))) = [Some 2, Some 3, Some 3] \<and>
   fst (bindDependencies noop noop 7 [Some 1, Some 2] (snd (readsAction (trackStart 7 boundWorld))))
     = Returns () \<and>
   observing (derivations
     (snd (bindDependencies noop noop 7 [Some 1, Some 2]
        (snd (readsAction (trackStart 7 boundWorld))))) 7)
     = [Some 2, Some 3, Some 3] \<and>
   diffValue (observables
     (snd (bindDependencies noop noop 7 [Some 1, Some 2]
        (snd (readsAction (trackStart 7 boundWorld))))) 1) = 0 \<and>
   diffValue (observables
     (snd (bindDependencies noop noop 7 [Some 1, Some 2]
        (snd (readsAction (trackStart 7 boundWorld))))) 2) = 0 \<and>
   diffValue (observables
     (snd (bindDependencies noop noop 7 [Some 1, Some 2]
        (snd (readsAction (trackStart 7 boundWorld))))) 3) = 0 \<and>
   leavesDiffValues (coolDown :: oid \<Rightarrow> unit world \<Rightarrow> unit outcome \<times> unit world) \<and>
   leavesDerivation 7 (coolDown :: oid \<Rightarrow> unit world \<Rightarrow> unit outcome \<times> unit world) \<and>
   None \<notin> set [Some 1, Some (3::nat)] \<and>
   newObserving 7 (snd (reads [1] (trackStart 7 computedWorld))) = [Some 1] \<and>
   diffValuesFrom (- 1) (newObserving 7 (snd (reads [1] (trackStart 7 computedWorld))))
     (snd (reads [1] (trackStart 7 computedWorld))) \<and>
   fst (bindDependencies noop coolDown 7 [Some 1, Some 3]
     (snd (reads [1] (trackStart 7 computedWorld)))) = Returns () \<and>
   observing (derivations
     (snd (bindDependencies noop coolDown 7 [Some 1, Some 3]
        (snd (reads [1] (trackStart 7 computedWorld))))) 7) = [Some 1] \<and>
   observing (derivations
     (snd (bindDependencies noop coolDown 7 [Some 1, Some 3]
        (snd (reads [1] (trackStart 7 computedWorld))))) 3) = [] \<and>
   diffValue (observables
     (snd (bindDependencies noop coolDown 7 [Some 1, Some 3]
        (snd (reads [1] (trackStart 7 computedWorld))))) 1) = 0 \<and>
   diffValue (observables
     (snd (bindDependencies noop coolDown 7 [Some 1, Some 3]
        (snd (reads [1] (trackStart 7 computedWorld))))) 3) = 0"
proof -
  let ?noop = "noop :: oid \<Rightarrow> unit world \<Rightarrow> unit outcome \<times> unit world"
  let ?cool = "coolDown :: oid \<Rightarrow> unit world \<Rightarrow> unit outcome \<times> unit world"
  let ?w1 = "snd (readsAction (trackStart 7 boundWorld))"
  let ?b1 = "snd (reads [1] (trackStart 7 computedWorld))"
  let ?w2 = "snd (bindDependencies noop noop 7 [Some 1, Some 2] ?w1)"
  let ?b2 = "snd (bindDependencies noop coolDown 7 [Some 1, Some 3] ?b1)"
  have n: "leavesDiffValues ?noop" "alwaysReturns ?noop" "leavesDerivation 7 ?noop"
    by (simp_all add: noop_hook)
  have c: "leavesDiffValues ?cool" "leavesDerivation 7 ?cool"
    by (simp_all add: coolDown_leaves)
  have new: "newObserving 7 ?w1 = [Some 2, Some 3, Some 3]"
    by code_simp
  have nh1: "None \<notin> set [Some 1, Some (2::nat)]" "None \<notin> set [Some 1, Some (3::nat)]"
    by simp_all
  have nh2: "None \<notin> set (newObserving 7 ?w1)"
    unfolding new by simp
  have obs: "observables ?w1 = observables boundWorld"
    by (simp add: readsAction_def reportObserved_def trackStart_def Let_def case_prod_beta)
  have clean: "diffValuesFrom (- 1) (newObserving 7 ?w1) ?w1"
    unfolding diffValuesFrom_def new obs by (auto simp: boundWorld_def noObservable_def)
  note A = bindDependencies_leaves_diffValue_zero
    [where onBecomeObserved = ?noop and onBecomeUnobserved = ?noop
       and prevObserving = "[Some 1, Some 2]" and d = 7 and w = ?w1]
  have ret: "fst (bindDependencies noop noop 7 [Some 1, Some 2] ?w1) = Returns ()"
    using A n nh1 nh2 clean by blast
  have after: "observing (derivations ?w2 7) = [Some 2, Some 3, Some 3]"
    using A n nh1 nh2 clean ret new by (simp del: reads.simps)
  have zero: "\<forall>a. Some a \<in> set [Some 1, Some 2] \<or> Some a \<in> set (observing (derivations ?w2 7))
      \<longrightarrow> diffValue (observables ?w2 a) = 0"
    using A n nh1 nh2 clean ret by blast
  have z: "diffValue (observables ?w2 1) = 0" "diffValue (observables ?w2 2) = 0"
    "diffValue (observables ?w2 3) = 0"
    using zero unfolding after by simp_all
  have newb: "newObserving 7 ?b1 = [Some 1]"
    by code_simp
  have nhb: "None \<notin> set (newObserving 7 ?b1)"
    unfolding newb by simp
  have obsb: "observables ?b1 = observables computedWorld"
    by (simp only: reads_frame trackStart_simps)
  have cleanb: "diffValuesFrom (- 1) (newObserving 7 ?b1) ?b1"
    unfolding diffValuesFrom_def newb obsb by (auto simp: computedWorld_def noObservable_def)
  have retb: "fst (bindDependencies noop coolDown 7 [Some 1, Some 3] ?b1) = Returns ()"
    by code_simp
  note B = bindDependencies_leaves_diffValue_zero
    [where onBecomeObserved = ?noop and onBecomeUnobserved = ?cool
       and prevObserving = "[Some 1, Some 3]" and d = 7 and w = ?b1]
  have afterb: "observing (derivations ?b2 7) = [Some 1]"
    using B n c nh1 nhb cleanb retb newb by (simp del: reads.simps)
  have zerob: "\<forall>a. Some a \<in> set [Some 1, Some 3] \<or> Some a \<in> set (observing (derivations ?b2 7))
      \<longrightarrow> diffValue (observables ?b2 a) = 0"
    using B n c nh1 nhb cleanb retb by blast
  have zb: "diffValue (observables ?b2 1) = 0" "diffValue (observables ?b2 3) = 0"
    using zerob by simp_all
  have evb: "observing (derivations ?b2 3) = []"
    by code_simp
  show ?thesis
    using n c nh1 nh2 clean new ret after z newb cleanb retb afterb evb zb by blast
qed

text \<open>
  C4: when \<open>f\<close> throws inside \<open>trackDerivedFunction\<close>, the error is logged and
  thrown again, \<open>unboundDepsCount\<close> is zero, \<open>observing\<close> is the list from before
  the call, the global state is the reset one, and no observer set differs from what
  \<open>f\<close> left: if the observer sets agreed with the lists from before the run, they
  still do.  No hook is fired.
\<close>

theorem trackDerivedFunction_rolls_back:
  "f (trackStart d w) = (Throws e, w1) \<longrightarrow>
     fst (trackDerivedFunction resetGlobalState onBecomeObserved onBecomeUnobserved d f w)
       = Throws e \<and>
     unboundDepsCount (derivations
       (snd (trackDerivedFunction resetGlobalState onBecomeObserved onBecomeUnobserved d f w)) d)
       = 0 \<and>
     observing (derivations
       (snd (trackDerivedFunction resetGlobalState onBecomeObserved onBecomeUnobserved d f w)) d)
       = observing (derivations w d) \<and>
     globalState (snd (trackDerivedFunction resetGlobalState onBecomeObserved onBecomeUnobserved d f w))
       = resetGlobalState (globalState w1) \<and>
     console (snd (trackDerivedFunction resetGlobalState onBecomeObserved onBecomeUnobserved d f w))
       = console w1 @ [(name (derivations w1 d), e)] \<and>
     observables (snd (trackDerivedFunction resetGlobalState onBecomeObserved onBecomeUnobserved d f w))
       = observables w1 \<and>
     (observersConsistent
        (upd_derivation d (\<lambda>x. x\<lparr>observing := observing (derivations w d)\<rparr>) w1)
      \<longrightarrow> observersConsistent
            (snd (trackDerivedFunction resetGlobalState onBecomeObserved onBecomeUnobserved d f w)))"
proof
  let ?t = "trackDerivedFunction resetGlobalState onBecomeObserved onBecomeUnobserved d f w"
  assume f: "f (trackStart d w) = (Throws e, w1)"
  have eq: "?t = trackCatch resetGlobalState d (observing (derivations w d)) e w1"
    using f by (simp add: trackDerivedFunction_def Let_def)
  have cons: "observersConsistent (snd (trackCatch resetGlobalState d (observing (derivations w d)) e w1))
      = observersConsistent (upd_derivation d (\<lambda>x. x\<lparr>observing := observing (derivations w d)\<rparr>) w1)"
    by (simp add: observersConsistent_def trackCatch_simps)
  show "fst ?t = Throws e \<and>
     unboundDepsCount (derivations (snd ?t) d) = 0 \<and>
     observing (derivations (snd ?t) d) = observing (derivations w d) \<and>
     globalState (snd ?t) = resetGlobalState (globalState w1) \<and>
     console (snd ?t) = console w1 @ [(name (derivations w1 d), e)] \<and>
     observables (snd ?t) = observables w1 \<and>
     (observersConsistent
        (upd_derivation d (\<lambda>x. x\<lparr>observing := observing (derivations w d)\<rparr>) w1)
      \<longrightarrow> observersConsistent (snd ?t))"
    unfolding eq cons by (simp add: trackCatch_simps)
qed

lemma boundWorld_shape:
  assumes "observables w = observables boundWorld"
    and "\<And>D. observing (derivations w D) = (if D = 7 then [Some 1, Some 2] else [])"
  shows "observersConsistent w"
  unfolding observersConsistent_def
  by (auto simp: assms boundWorld_def noObservable_def split: if_splits)

theorem trackDerivedFunction_rolls_back_witness:
  "failingAction (trackStart 7 boundWorld)
     = (Throws (Error ''boom''), snd (failingAction (trackStart 7 boundWorld))) \<and>
   observersConsistent
     (upd_derivation 7 (\<lambda>x. x\<lparr>observing := observing (derivations boundWorld 7)\<rparr>)
        (snd (failingAction (trackStart 7 boundWorld)))) \<and>
   fst (trackDerivedFunction resetExample noop coolDown 7 failingAction boundWorld)
     = Throws (Error ''boom'') \<and>
   unboundDepsCount (derivations
     (snd (trackDerivedFunction resetExample noop coolDown 7 failingAction boundWorld)) 7) = 0 \<and>
   observing (derivations
     (snd (trackDerivedFunction resetExample noop coolDown 7 failingAction boundWorld)) 7)
     = [Some 1, Some 2] \<and>
   globalState (snd (trackDerivedFunction resetExample noop coolDown 7 failingAction boundWorld))
     = initialGlobals \<and>
   console (snd (trackDerivedFunction resetExample noop coolDown 7 failingAction boundWorld))
     = [(''r'', Error ''boom'')] \<and>
   observables (snd (trackDerivedFunction resetExample noop coolDown 7 failingAction boundWorld))
     = observables boundWorld \<and>
   observersConsistent
     (snd (trackDerivedFunction resetExample noop coolDown 7 failingAction boundWorld))"
proof -
  let ?w1 = "snd (failingAction (trackStart 7 boundWorld))"
  have f: "failingAction (trackStart 7 boundWorld) = (Throws (Error ''boom''), ?w1)"
    by (simp add: failingAction_def case_prod_beta)
  have obs: "observables ?w1 = observables boundWorld"
    by (simp add: failingAction_def reportObserved_def trackStart_def Let_def case_prod_beta)
  have others: "derivations ?w1 D = noDerivation" if "D \<noteq> 7" for D
    using that
    by (simp add: failingAction_def reportObserved_def trackStart_def Let_def case_prod_beta
        boundWorld_def initialWorld_def)
  have pre: "observersConsistent
     (upd_derivation 7 (\<lambda>x. x\<lparr>observing := observing (derivations boundWorld 7)\<rparr>) ?w1)"
    by (rule boundWorld_shape) (simp_all add: obs others noDerivation_def, simp add: boundWorld_def)
  have prev: "observing (derivations boundWorld 7) = [Some 1, Some 2]"
    by (simp add: boundWorld_def)
  have nm: "name (derivations ?w1 7) = ''r''"
    by (simp add: failingAction_def reportObserved_def trackStart_def Let_def case_prod_beta
        boundWorld_def)
  have con: "console ?w1 = []"
    by (simp add: failingAction_def reportObserved_def trackStart_def Let_def case_prod_beta
        boundWorld_def initialWorld_def)
  from trackDerivedFunction_rolls_back
         [where f = failingAction and d = 7 and w = boundWorld and e = "Error ''boom''"
            and ?w1.0 = ?w1 and resetGlobalState = resetExample
            and onBecomeObserved = noop and onBecomeUnobserved = coolDown]
  show ?thesis
    using f pre obs prev nm con by (simp add: resetExample_def)
qed

section \<open>Tracked functions that only read\<close>

text \<open>
  What the result on completed tracking runs assumes of the tracked function holds of
  every function that only reads observables, from every world in which the list of the
  derivation agrees with the observer sets, also inside the tracking run of another
  derivation.
\<close>

lemma take_setIndex:
  assumes "take k xs = map Some bs" and "length bs = k"
  shows "take (Suc k) (setIndex k a xs) = map Some (bs @ [a])"
proof -
  from assms have le: "k \<le> length xs"
    by (metis length_map length_take min.cobounded2 min_def nat_le_linear)
  show ?thesis
  proof (cases "k < length xs")
    case True
    then show ?thesis
      using assms by (simp add: setIndex_def take_Suc_conv_app_nth)
  next
    case False
    with le have "k = length xs" by simp
    then show ?thesis
      using assms by (simp add: setIndex_def)
  qed
qed

lemma reads_others:
  "isTracking (globalState w) \<Longrightarrow> derivationStack (globalState w) \<noteq> [] \<Longrightarrow>
   D \<noteq> last (derivationStack (globalState w)) \<Longrightarrow>
   derivations (snd (reads as w)) D = derivations w D"
proof (induction as arbitrary: w)
  case Nil
  then show ?case by simp
next
  case (Cons a as)
  let ?w1 = "snd (reportObserved a w)"
  have g: "globalState ?w1 = globalState w"
    by (simp add: reportObserved_def Let_def)
  have d: "derivations ?w1 D = derivations w D"
    using Cons.prems by (simp add: reportObserved_def Let_def)
  have "derivations (snd (reads as ?w1)) D = derivations ?w1 D"
    using Cons.prems by (intro Cons.IH) (simp_all add: g)
  with d show ?case by (simp add: case_prod_beta)
qed

lemma reads_fills:
  assumes "isTracking (globalState w)" and "derivationStack (globalState w) \<noteq> []"
    and "d = last (derivationStack (globalState w))"
    and "take (unboundDepsCount (derivations w d)) (observing (derivations w d)) = map Some bs"
    and "length bs = unboundDepsCount (derivations w d)"
  shows "unboundDepsCount (derivations (snd (reads as w)) d) = length bs + length as \<and>
         take (length bs + length as) (observing (derivations (snd (reads as w)) d))
           = map Some (bs @ as)"
  using assms
proof (induction as arbitrary: w bs)
  case Nil
  then show ?case by simp
next
  case (Cons a as)
  let ?w1 = "snd (reportObserved a w)"
  have g: "globalState ?w1 = globalState w"
    by (simp add: reportObserved_def Let_def)
  have n: "unboundDepsCount (derivations ?w1 d) = Suc (length bs)"
    using Cons.prems by (simp add: reportObserved_def Let_def)
  have o: "observing (derivations ?w1 d)
      = setIndex (length bs) a (observing (derivations w d))"
    using Cons.prems by (simp add: reportObserved_def Let_def)
  have t: "take (unboundDepsCount (derivations ?w1 d)) (observing (derivations ?w1 d))
      = map Some (bs @ [a])"
    unfolding n o using Cons.prems(4,5) by (intro take_setIndex) simp_all
  have "unboundDepsCount (derivations (snd (reads as ?w1)) d) = length (bs @ [a]) + length as \<and>
         take (length (bs @ [a]) + length as) (observing (derivations (snd (reads as ?w1)) d))
           = map Some ((bs @ [a]) @ as)"
    using Cons.prems(1,2,3) t n by (intro Cons.IH) (simp_all add: g)
  then show ?case by (simp add: case_prod_beta)
qed

lemma tracking_reads:
  assumes agrees: "observingAgrees d w"
    and nh1: "None \<notin> set (observing (derivations w d))"
    and clean: "\<And>a. a \<in> set as \<Longrightarrow> 0 \<le> diffValue (observables w a)"
    and hO: "leavesDiffValues hO" and hU: "leavesDiffValues hU"
    and lO: "leavesDerivation d hO" and lU: "leavesDerivation d hU"
    and rO: "alwaysReturns hO" and rU: "alwaysReturns hU"
  shows "fst (trackDerivedFunction resetGlobalState hO hU d (reads as) w) = Returns ()"
    and "observingAgrees d (snd (trackDerivedFunction resetGlobalState hO hU d (reads as) w))"
    and "observing (derivations (snd (trackDerivedFunction resetGlobalState hO hU d (reads as) w)) d)
           = map Some as"
    and "a \<in> set as \<or> Some a \<in> set (observing (derivations w d)) \<Longrightarrow>
         diffValue (observables
           (snd (trackDerivedFunction resetGlobalState hO hU d (reads as) w)) a) = 0"
    and "D \<noteq> d \<Longrightarrow> keepsAgreement D hO \<Longrightarrow> keepsAgreement D hU \<Longrightarrow> observingAgrees D w \<Longrightarrow>
         observingAgrees D (snd (trackDerivedFunction resetGlobalState hO hU d (reads as) w))"
proof -
  let ?w0 = "trackStart d w"
  let ?w1 = "snd (reads as ?w0)"
  let ?prev = "observing (derivations w d)"
  let ?w3 = "upd_global (\<lambda>g. g\<lparr>derivationStack := butlast (derivationStack g)\<rparr>)
          (upd_global (\<lambda>g. g\<lparr>isTracking := isTracking (globalState w)\<rparr>) ?w1)"
  let ?t = "trackDerivedFunction resetGlobalState hO hU d (reads as) w"
  have f: "reads as ?w0 = (Returns (), ?w1)"
    using reads_frame(1) [of as ?w0] by (metis prod.collapse)
  have stack: "derivationStack (globalState ?w1) \<noteq> []"
    by (simp add: reads_frame trackStart_simps)
  have fill: "unboundDepsCount (derivations ?w1 d) = length ([] :: oid list) + length as \<and>
         take (length ([] :: oid list) + length as) (observing (derivations ?w1 d))
           = map Some ([] @ as)"
    by (rule reads_fills) (simp_all add: trackStart_simps)
  then have n: "unboundDepsCount (derivations ?w1 d) = length as"
    and t: "take (length as) (observing (derivations ?w1 d)) = map Some as"
    by simp_all
  have "length (take (length as) (observing (derivations ?w1 d))) = length as"
    by (simp add: t)
  then have le: "length as \<le> length (observing (derivations ?w1 d))"
    by simp
  have new: "newObserving d ?w1 = map Some as"
    using le by (simp add: newObserving_def setLength_def n t)
  have new3: "newObserving d ?w3 = map Some as"
    using new by (simp add: newObserving_def)
  have nh2: "None \<notin> set (newObserving d ?w1)"
    by (auto simp: new)
  have obs: "observables ?w1 = observables w"
    by (simp add: reads_frame trackStart_simps)
  have others: "derivations ?w1 D = derivations w D" if "D \<noteq> d" for D
    using reads_others [of ?w0 D as] that by (simp add: trackStart_simps)
  have eq: "?t = (Returns (), snd (bindDependencies hO hU d ?prev ?w3))"
    using f stack rO rU nh1 nh2 by (rule trackDerivedFunction_returns)
  have ret: "fst (bindDependencies hO hU d ?prev ?w3) = Returns ()"
    using trackDerivedFunction_returnsD(3) [OF eq] .
  have pre: "(d \<in> observers (observables ?w3 a)) = (Some a \<in> set ?prev)" for a
    using observingAgreesD [OF agrees, of a] by (simp add: obs)
  have cl: "0 \<le> diffValue (observables ?w3 a)" if "Some a \<in> set (newObserving d ?w3)" for a
    using that clean [of a] by (auto simp: new3 obs)
  show "fst ?t = Returns ()"
    by (simp add: eq)
  show "observingAgrees d (snd ?t)"
    using bindDependencies_agrees(1) [OF ret hO hU lO lU pre cl] by (simp add: eq)
  show "observing (derivations (snd ?t) d) = map Some as"
    using bindDependencies_agrees(2) [OF ret hO hU lO lU pre cl] by (simp add: eq new3)
  show "diffValue (observables (snd ?t) a) = 0"
    if "a \<in> set as \<or> Some a \<in> set (observing (derivations w d))"
  proof -
    have touched: "Some a \<in> set ?prev \<or> Some a \<in> set (newObserving d ?w3)"
      using that by (auto simp: new3)
    have "diffValue (observables (snd (bindDependencies hO hU d ?prev ?w3)) a) = 0"
      using ret hO hU touched
    proof (rule bindDependencies_diffValue)
      assume "Some a \<in> set (newObserving d ?w3)"
      then have "0 \<le> diffValue (observables ?w3 a)" by (rule cl)
      then show "- 1 \<le> diffValue (observables ?w3 a)" by simp
    qed
    then show ?thesis by (simp add: eq)
  qed
  show "observingAgrees D (snd ?t)"
    if "D \<noteq> d" "keepsAgreement D hO" "keepsAgreement D hU" "observingAgrees D w"
  proof -
    have "observingAgrees D ?w1 = observingAgrees D w"
      by (rule observingAgrees_cong) (simp_all add: others [OF that(1)] obs)
    with that(4) have "observingAgrees D ?w3" by simp
    with ret that(1,2,3) have "observingAgrees D (snd (bindDependencies hO hU d ?prev ?w3))"
      by (rule bindDependencies_agrees_other)
    then show ?thesis by (simp add: eq)
  qed
qed

section \<open>Untracked regions\<close>

text \<open>
  C6, as stated, fails: in a world where \<open>isTracking\<close> is set, an action that throws
  leaves \<open>untracked\<close> with the flag cleared, not restored.
\<close>

theorem untracked_throw_counterexample:
  "isTracking (globalState trackingWorld) = True \<and>
   fst (untracked throwingAction trackingWorld) = Throws (Error ''boom'') \<and>
   isTracking (globalState (snd (untracked throwingAction trackingWorld))) = False"
  by (simp add: untracked_def untrackedStart_def untrackedEnd_def throwingAction_def
      trackingWorld_def initialWorld_def initialGlobals_def)

text \<open>
  C6 (amended): \<open>untracked action\<close> calls \<open>action\<close> in the world whose \<open>isTracking\<close>
  flag is cleared and that is otherwise unchanged.  When \<open>action\<close> returns, \<open>untracked\<close>
  returns the same value and sets \<open>isTracking\<close> back to the value it had before the call,
  changing nothing else of what \<open>action\<close> left.  When \<open>action\<close> throws, the exception
  leaves \<open>untracked\<close> and the world is exactly as \<open>action\<close> left it: the flag is not restored.
\<close>

theorem untracked_restores_on_return:
  "(action (upd_global (\<lambda>g. g\<lparr>isTracking := False\<rparr>) w) = (Returns res, w2) \<longrightarrow>
      untracked action w =
        (Returns res, upd_global (\<lambda>g. g\<lparr>isTracking := isTracking (globalState w)\<rparr>) w2) \<and>
      isTracking (globalState (snd (untracked action w))) = isTracking (globalState w)) \<and>
   (action (upd_global (\<lambda>g. g\<lparr>isTracking := False\<rparr>) w) = (Throws e, w2) \<longrightarrow>
      untracked action w = (Throws e, w2))"
  by (simp add: untracked_def untrackedStart_def untrackedEnd_def)

theorem untracked_restores_on_return_witness:
  "returningAction (upd_global (\<lambda>g. g\<lparr>isTracking := False\<rparr>) trackingWorld)
     = (Returns 5, trackingWorld) \<and>
   untracked returningAction trackingWorld = (Returns 5, trackingWorld) \<and>
   throwingAction (upd_global (\<lambda>g. g\<lparr>isTracking := False\<rparr>) trackingWorld)
     = (Throws (Error ''boom''), upd_global (\<lambda>g. g\<lparr>isTracking := False\<rparr>) trackingWorld) \<and>
   untracked throwingAction trackingWorld
     = (Throws (Error ''boom''), upd_global (\<lambda>g. g\<lparr>isTracking := False\<rparr>) trackingWorld)"
proof -
  have r: "returningAction (upd_global (\<lambda>g. g\<lparr>isTracking := False\<rparr>) trackingWorld)
     = (Returns 5, trackingWorld)"
    by (simp add: returningAction_def trackingWorld_def upd_global_def initialWorld_def
        initialGlobals_def)
  have t: "throwingAction (upd_global (\<lambda>g. g\<lparr>isTracking := False\<rparr>) trackingWorld)
     = (Throws (Error ''boom''), upd_global (\<lambda>g. g\<lparr>isTracking := False\<rparr>) trackingWorld)"
    by (simp add: throwingAction_def)
  have same: "upd_global (\<lambda>g. g\<lparr>isTracking := isTracking (globalState trackingWorld)\<rparr>) trackingWorld
     = trackingWorld"
    by (simp add: trackingWorld_def upd_global_def initialWorld_def initialGlobals_def)
  from untracked_restores_on_return [where action = returningAction and w = trackingWorld
      and res = 5 and ?w2.0 = trackingWorld]
    untracked_restores_on_return [where action = throwingAction and w = trackingWorld
      and e = "Error ''boom''"
      and ?w2.0 = "upd_global (\<lambda>g. g\<lparr>isTracking := False\<rparr>) trackingWorld"]
  show ?thesis using r t same by simp
qed

section \<open>Stale and ready notifications\<close>

lemma upd_derivation_twice [simp]:
  "upd_derivation d f (upd_derivation d g w) = upd_derivation d (\<lambda>x. f (g x)) w"
  by (simp add: upd_derivation_def)

lemma notifyDependencyReady_unfolded:
  "0 < dependencyStaleCount (derivations w d) \<longrightarrow>
     (let counted = upd_derivation d
            (\<lambda>x. x\<lparr>dependencyChangeCount :=
                     dependencyChangeCount x + (if dependencyDidChange then 1 else 0),
                   dependencyStaleCount := dependencyStaleCount x - 1\<rparr>) w
      in (dependencyStaleCount (derivations w d) \<noteq> 1 \<longrightarrow>
            notifyDependencyReady onReady propagateReadiness d dependencyDidChange w
              = (Returns (), counted)) \<and>
         (dependencyStaleCount (derivations w d) = 1 \<and>
          0 < dependencyChangeCount (derivations counted d) \<longrightarrow>
            notifyDependencyReady onReady propagateReadiness d dependencyDidChange w
              = (case onReady d
                       (upd_derivation d (\<lambda>x. x\<lparr>dependencyChangeCount := 0\<rparr>) counted) of
                   (Throws e, w4) \<Rightarrow> (Throws e, w4)
                 | (Returns changed, w4) \<Rightarrow> propagateReadiness d changed w4)) \<and>
         (dependencyStaleCount (derivations w d) = 1 \<and>
          dependencyChangeCount (derivations counted d) \<le> 0 \<longrightarrow>
            notifyDependencyReady onReady propagateReadiness d dependencyDidChange w
              = propagateReadiness d False counted))"
  by (simp add: notifyDependencyReady_def invariant_def Let_def upd_derivation_def)

text \<open>
  C2: \<open>notifyDependencyReady\<close>, called with a positive stale count, decrements the stale
  count and, if the dependency changed, increments the change count.  If the stale count
  has not reached zero, nothing else happens.  If it has and the change count is positive,
  the change count is reset, \<open>onDependenciesReady\<close> is called and readiness is
  propagated with the flag it returned (an exception of \<open>onDependenciesReady\<close> leaves
  the function).  If it has and the change count is not positive, readiness is propagated
  with \<open>false\<close> and \<open>onDependenciesReady\<close> is not called.
\<close>

theorem notifyDependencyReady_cases:
  "0 < dependencyStaleCount (derivations w d) \<longrightarrow>
     (let counted = upd_derivation d
            (\<lambda>x. x\<lparr>dependencyChangeCount :=
                     dependencyChangeCount x + (if dependencyDidChange then 1 else 0),
                   dependencyStaleCount := dependencyStaleCount x - 1\<rparr>) w
      in (dependencyStaleCount (derivations w d) \<noteq> 1 \<longrightarrow>
            notifyDependencyReady onReady propagateReadiness d dependencyDidChange w
              = (Returns (), counted)) \<and>
         (dependencyStaleCount (derivations w d) = 1 \<and>
          0 < dependencyChangeCount (derivations counted d) \<longrightarrow>
            notifyDependencyReady onReady propagateReadiness d dependencyDidChange w
              = (case onReady d
                       (upd_derivation d (\<lambda>x. x\<lparr>dependencyChangeCount := 0\<rparr>) counted) of
                   (Throws e, w4) \<Rightarrow> (Throws e, w4)
                 | (Returns changed, w4) \<Rightarrow> propagateReadiness d changed w4)) \<and>
         (dependencyStaleCount (derivations w d) = 1 \<and>
          dependencyChangeCount (derivations counted d) \<le> 0 \<longrightarrow>
            notifyDependencyReady onReady propagateReadiness d dependencyDidChange w
              = propagateReadiness d False counted))"
  by (rule notifyDependencyReady_unfolded)

theorem notifyDependencyReady_cases_witness:
  "0 < dependencyStaleCount (derivations (staleWorld 2 0) 7) \<and>
   dependencyStaleCount (derivations (staleWorld 2 0) 7) \<noteq> 1 \<and>
   notifyDependencyReady logDependenciesReady logReadiness 7 True (staleWorld 2 0)
     = (Returns (), staleWorld 1 1) \<and>
   dependencyStaleCount (derivations (staleWorld 1 0) 7) = 1 \<and>
   notifyDependencyReady logDependenciesReady logReadiness 7 True (staleWorld 1 0)
     = (Returns (), (staleWorld 0 0)\<lparr>user := [OnDependenciesReady 7, PropagateReadiness 7 True]\<rparr>) \<and>
   notifyDependencyReady logDependenciesReady logReadiness 7 False (staleWorld 1 0)
     = (Returns (), (staleWorld 0 0)\<lparr>user := [PropagateReadiness 7 False]\<rparr>)"
  using notifyDependencyReady_cases [of "staleWorld 2 0" 7 True logDependenciesReady logReadiness]
    notifyDependencyReady_cases [of "staleWorld 1 0" 7 True logDependenciesReady logReadiness]
    notifyDependencyReady_cases [of "staleWorld 1 0" 7 False logDependenciesReady logReadiness]
  by (simp add: staleWorld_def initialWorld_def upd_derivation_def logDependenciesReady_def
      logReadiness_def noDerivation_def Let_def)

lemma staleCountsNonNegativeD:
  "staleCountsNonNegative w \<Longrightarrow> 0 \<le> dependencyStaleCount (derivations w d)"
  by (simp add: staleCountsNonNegative_def)

lemma keepsStaleCountsNonNegativeD:
  "keepsStaleCountsNonNegative c \<Longrightarrow> staleCountsNonNegative w \<Longrightarrow>
   staleCountsNonNegative (snd (c w))"
  by (simp add: keepsStaleCountsNonNegative_def)

lemma notifyDependencyStale_nonneg:
  assumes w: "staleCountsNonNegative w"
    and p: "\<And>d'. keepsStaleCountsNonNegative (propagateStaleness d')"
  shows "staleCountsNonNegative (snd (notifyDependencyStale propagateStaleness d w))"
proof -
  let ?w1 = "upd_derivation d (\<lambda>x. x\<lparr>dependencyStaleCount := dependencyStaleCount x + 1\<rparr>) w"
  have w1: "staleCountsNonNegative ?w1"
    using w by (simp add: staleCountsNonNegative_def)
  show ?thesis
    using w1 keepsStaleCountsNonNegativeD [OF p w1]
    by (simp add: notifyDependencyStale_def Let_def)
qed

lemma notifyDependencyReady_throws:
  "dependencyStaleCount (derivations w d) \<le> 0 \<Longrightarrow>
   notifyDependencyReady onReady propagateReadiness d changed w
     = (Throws (Error ''[mobx] Invariant failed: unexpected ready notification''), w)"
  by (simp add: notifyDependencyReady_def invariant_def)

lemma notifyDependencyReady_nonneg:
  assumes w: "staleCountsNonNegative w"
    and r: "keepsStaleCountsNonNegative (onReady d)"
    and p: "\<And>c. keepsStaleCountsNonNegative (propagateReadiness d c)"
  shows "staleCountsNonNegative (snd (notifyDependencyReady onReady propagateReadiness d changed w))"
proof (cases "0 < dependencyStaleCount (derivations w d)")
  case False
  then show ?thesis using w by (simp add: notifyDependencyReady_throws)
next
  case True
  let ?w2 = "upd_derivation d
            (\<lambda>x. x\<lparr>dependencyChangeCount := dependencyChangeCount x + (if changed then 1 else 0),
                   dependencyStaleCount := dependencyStaleCount x - 1\<rparr>) w"
  let ?w3 = "upd_derivation d (\<lambda>x. x\<lparr>dependencyChangeCount := 0\<rparr>) ?w2"
  have w2: "staleCountsNonNegative ?w2"
    using w True by (simp add: staleCountsNonNegative_def)
  have w3: "staleCountsNonNegative ?w3"
    using w True by (simp add: staleCountsNonNegative_def)
  note c = notifyDependencyReady_unfolded [of w d changed onReady propagateReadiness]
  show ?thesis
  proof (cases "dependencyStaleCount (derivations w d) = 1")
    case False
    with c True w2 show ?thesis by (simp add: Let_def)
  next
    case one: True
    show ?thesis
    proof (cases "0 < dependencyChangeCount (derivations ?w2 d)")
      case False
      with c True one have "notifyDependencyReady onReady propagateReadiness d changed w
          = propagateReadiness d False ?w2"
        by (simp add: Let_def)
      then show ?thesis using keepsStaleCountsNonNegativeD [OF p w2] by simp
    next
      case pos: True
      with c True one have eq: "notifyDependencyReady onReady propagateReadiness d changed w
          = (case onReady d ?w3 of
                   (Throws e, w4) \<Rightarrow> (Throws e, w4)
                 | (Returns changed, w4) \<Rightarrow> propagateReadiness d changed w4)"
        by (simp add: Let_def)
      have w4: "staleCountsNonNegative (snd (onReady d ?w3))"
        by (rule keepsStaleCountsNonNegativeD [OF r w3])
      show ?thesis
      proof (cases "onReady d ?w3")
        case (Pair res w4')
        with w4 have w4': "staleCountsNonNegative w4'" by simp
        show ?thesis
          using Pair w4' keepsStaleCountsNonNegativeD [OF p w4']
          by (cases res) (simp_all add: eq)
      qed
    qed
  qed
qed

lemma leavesStaleCountD:
  "leavesStaleCount d c \<Longrightarrow>
   dependencyStaleCount (derivations (snd (c w)) d) = dependencyStaleCount (derivations w d)"
  by (simp add: leavesStaleCount_def)

lemma notifyDependencyStale_increments:
  assumes p: "leavesStaleCount d (propagateStaleness d)"
  shows "dependencyStaleCount (derivations (snd (notifyDependencyStale propagateStaleness d w)) d)
     = dependencyStaleCount (derivations w d) + 1"
  using leavesStaleCountD [OF p]
  by (simp add: notifyDependencyStale_def Let_def)

lemma notifyDependencyReady_decrements:
  assumes pos: "0 < dependencyStaleCount (derivations w d)"
    and r: "leavesStaleCount d (onReady d)"
    and p: "\<And>c. leavesStaleCount d (propagateReadiness d c)"
  shows "dependencyStaleCount
           (derivations (snd (notifyDependencyReady onReady propagateReadiness d changed w)) d)
     = dependencyStaleCount (derivations w d) - 1"
proof -
  let ?w2 = "upd_derivation d
            (\<lambda>x. x\<lparr>dependencyChangeCount := dependencyChangeCount x + (if changed then 1 else 0),
                   dependencyStaleCount := dependencyStaleCount x - 1\<rparr>) w"
  let ?w3 = "upd_derivation d (\<lambda>x. x\<lparr>dependencyChangeCount := 0\<rparr>) ?w2"
  note c = notifyDependencyReady_unfolded [of w d changed onReady propagateReadiness]
  show ?thesis
  proof (cases "dependencyStaleCount (derivations w d) = 1")
    case False
    with c pos show ?thesis by (simp add: Let_def)
  next
    case one: True
    show ?thesis
    proof (cases "0 < dependencyChangeCount (derivations ?w2 d)")
      case False
      with c pos one have "notifyDependencyReady onReady propagateReadiness d changed w
          = propagateReadiness d False ?w2"
        by (simp add: Let_def)
      then show ?thesis using leavesStaleCountD [OF p, of False ?w2] by simp
    next
      case True
      with c pos one have eq: "notifyDependencyReady onReady propagateReadiness d changed w
          = (case onReady d ?w3 of
                   (Throws e, w4) \<Rightarrow> (Throws e, w4)
                 | (Returns changed, w4) \<Rightarrow> propagateReadiness d changed w4)"
        by (simp add: Let_def)
      have k: "dependencyStaleCount (derivations (snd (onReady d ?w3)) d)
          = dependencyStaleCount (derivations w d) - 1"
        using leavesStaleCountD [OF r, of ?w3] by simp
      show ?thesis
      proof (cases "onReady d ?w3")
        case (Pair res w4')
        with k have k': "dependencyStaleCount (derivations w4' d)
            = dependencyStaleCount (derivations w d) - 1" by simp
        show ?thesis
        proof (cases res)
          case (Returns c')
          with Pair k' show ?thesis
            using leavesStaleCountD [OF p, of c' w4'] by (simp add: eq)
        next
          case (Throws e)
          with Pair k' show ?thesis by (simp add: eq)
        qed
      qed
    qed
  qed
qed

lemma log_keeps:
  "keepsStaleCountsNonNegative (logStaleness d)"
  "keepsStaleCountsNonNegative (logDependenciesReady d)"
  "keepsStaleCountsNonNegative (logReadiness d c)"
  by (simp_all add: keepsStaleCountsNonNegative_def staleCountsNonNegative_def logStaleness_def
      logDependenciesReady_def logReadiness_def)

lemma log_leaves:
  "leavesStaleCount d' (logStaleness d)"
  "leavesStaleCount d' (logDependenciesReady d)"
  "leavesStaleCount d' (logReadiness d c)"
  by (simp_all add: leavesStaleCount_def logStaleness_def logDependenciesReady_def
      logReadiness_def)

lemma staleWorld_nonneg: "0 \<le> s \<Longrightarrow> staleCountsNonNegative (staleWorld s c)"
  by (simp add: staleCountsNonNegative_def staleWorld_def noDerivation_def)

text \<open>
  C9: the stale count of a derivation is never negative.  \<open>notifyDependencyStale\<close>
  keeps all stale counts non-negative and adds one to the count of its derivation;
  \<open>notifyDependencyReady\<close> throws the invariant error, changing nothing, when the count
  is not positive, and otherwise keeps all stale counts non-negative; a stale notification
  followed by a ready notification leaves the count where it was, so a count that is zero
  before the two is zero after them.  The callbacks (\<open>propagateStaleness\<close>,
  \<open>onDependenciesReady\<close>, \<open>propagateReadiness\<close>) are assumed to keep the counts
  non-negative, respectively to leave the count of the derivation alone.
\<close>

theorem staleCount_never_negative:
  "(staleCountsNonNegative w \<and> (\<forall>d'. keepsStaleCountsNonNegative (propagateStaleness d'))
      \<longrightarrow> staleCountsNonNegative (snd (notifyDependencyStale propagateStaleness d w))) \<and>
   (leavesStaleCount d (propagateStaleness d)
      \<longrightarrow> dependencyStaleCount
            (derivations (snd (notifyDependencyStale propagateStaleness d w)) d)
          = dependencyStaleCount (derivations w d) + 1) \<and>
   (dependencyStaleCount (derivations w d) \<le> 0
      \<longrightarrow> notifyDependencyReady onReady propagateReadiness d changed w
          = (Throws (Error ''[mobx] Invariant failed: unexpected ready notification''), w)) \<and>
   (staleCountsNonNegative w \<and> keepsStaleCountsNonNegative (onReady d) \<and>
    (\<forall>c. keepsStaleCountsNonNegative (propagateReadiness d c))
      \<longrightarrow> staleCountsNonNegative
            (snd (notifyDependencyReady onReady propagateReadiness d changed w))) \<and>
   (0 \<le> dependencyStaleCount (derivations w d) \<and>
    leavesStaleCount d (propagateStaleness d) \<and> leavesStaleCount d (onReady d) \<and>
    (\<forall>c. leavesStaleCount d (propagateReadiness d c))
      \<longrightarrow> dependencyStaleCount
            (derivations
              (snd (notifyDependencyReady onReady propagateReadiness d changed
                 (snd (notifyDependencyStale propagateStaleness d w)))) d)
          = dependencyStaleCount (derivations w d))"
proof (intro conjI impI)
  assume "staleCountsNonNegative w \<and> (\<forall>d'. keepsStaleCountsNonNegative (propagateStaleness d'))"
  then show "staleCountsNonNegative (snd (notifyDependencyStale propagateStaleness d w))"
    by (simp add: notifyDependencyStale_nonneg)
next
  assume "leavesStaleCount d (propagateStaleness d)"
  then show "dependencyStaleCount
            (derivations (snd (notifyDependencyStale propagateStaleness d w)) d)
          = dependencyStaleCount (derivations w d) + 1"
    by (rule notifyDependencyStale_increments)
next
  assume "dependencyStaleCount (derivations w d) \<le> 0"
  then show "notifyDependencyReady onReady propagateReadiness d changed w
          = (Throws (Error ''[mobx] Invariant failed: unexpected ready notification''), w)"
    by (rule notifyDependencyReady_throws)
next
  assume "staleCountsNonNegative w \<and> keepsStaleCountsNonNegative (onReady d) \<and>
    (\<forall>c. keepsStaleCountsNonNegative (propagateReadiness d c))"
  then show "staleCountsNonNegative
            (snd (notifyDependencyReady onReady propagateReadiness d changed w))"
    by (simp add: notifyDependencyReady_nonneg)
next
  assume h: "0 \<le> dependencyStaleCount (derivations w d) \<and>
    leavesStaleCount d (propagateStaleness d) \<and> leavesStaleCount d (onReady d) \<and>
    (\<forall>c. leavesStaleCount d (propagateReadiness d c))"
  let ?w1 = "snd (notifyDependencyStale propagateStaleness d w)"
  have inc: "dependencyStaleCount (derivations ?w1 d) = dependencyStaleCount (derivations w d) + 1"
    using h by (simp add: notifyDependencyStale_increments)
  with h have pos: "0 < dependencyStaleCount (derivations ?w1 d)" by simp
  have "dependencyStaleCount
            (derivations (snd (notifyDependencyReady onReady propagateReadiness d changed ?w1)) d)
          = dependencyStaleCount (derivations ?w1 d) - 1"
    using pos h by (intro notifyDependencyReady_decrements) simp_all
  with inc show "dependencyStaleCount
            (derivations (snd (notifyDependencyReady onReady propagateReadiness d changed ?w1)) d)
          = dependencyStaleCount (derivations w d)"
    by simp
qed

theorem staleCount_never_negative_witness:
  "staleCountsNonNegative (staleWorld 0 0) \<and>
   (\<forall>d'. keepsStaleCountsNonNegative (logStaleness d')) \<and>
   staleCountsNonNegative (snd (notifyDependencyStale logStaleness 7 (staleWorld 0 0))) \<and>
   leavesStaleCount 7 (logStaleness 7) \<and>
   dependencyStaleCount (derivations (snd (notifyDependencyStale logStaleness 7 (staleWorld 0 0))) 7)
     = 1 \<and>
   dependencyStaleCount (derivations (staleWorld 0 0) 7) \<le> 0 \<and>
   notifyDependencyReady logDependenciesReady logReadiness 7 True (staleWorld 0 0)
     = (Throws (Error ''[mobx] Invariant failed: unexpected ready notification''), staleWorld 0 0) \<and>
   staleCountsNonNegative (staleWorld 1 0) \<and>
   keepsStaleCountsNonNegative (logDependenciesReady 7) \<and>
   (\<forall>c. keepsStaleCountsNonNegative (logReadiness 7 c)) \<and>
   staleCountsNonNegative
     (snd (notifyDependencyReady logDependenciesReady logReadiness 7 True (staleWorld 1 0))) \<and>
   leavesStaleCount 7 (logDependenciesReady 7) \<and>
   (\<forall>c. leavesStaleCount 7 (logReadiness 7 c)) \<and>
   dependencyStaleCount
     (derivations
       (snd (notifyDependencyReady logDependenciesReady logReadiness 7 True
          (snd (notifyDependencyStale logStaleness 7 (staleWorld 0 0))))) 7) = 0"
proof -
  have z: "dependencyStaleCount (derivations (staleWorld 0 0) 7) = 0"
    by (simp add: staleWorld_def noDerivation_def)
  from staleCount_never_negative
         [of "staleWorld 0 0" logStaleness 7 logDependenciesReady logReadiness True]
    staleCount_never_negative
         [of "staleWorld 1 0" logStaleness 7 logDependenciesReady logReadiness True]
  show ?thesis
    using z by (simp add: log_keeps log_leaves staleWorld_nonneg)
qed

section \<open>Running reactions\<close>

lemma runReactionsLoop_done:
  "pendingReactions (globalState w) = [] \<Longrightarrow>
   runReactionsLoop cb iterations w = Some (Returns (), w)"
  by (rule trans [OF runReactionsLoop.simps]) simp

lemma runReactionsLoop_throws:
  "pendingReactions (globalState w) \<noteq> [] \<Longrightarrow> iterations + 1 = MAX_REACTION_ITERATIONS \<Longrightarrow>
   runReactionsLoop cb iterations w
   = Some (Throws (Error (''Reaction doesn't converge to a stable state. Probably there is a cycle in the reactive function: ''
             @ toString (derivations w (hd (pendingReactions (globalState w)))))), w)"
  by (rule trans [OF runReactionsLoop.simps]) simp

lemma runReactionsLoop_pass:
  "pendingReactions (globalState w) \<noteq> [] \<Longrightarrow> iterations + 1 \<noteq> MAX_REACTION_ITERATIONS \<Longrightarrow>
   runRemaining cb (pendingReactions (globalState w))
     (upd_global (\<lambda>g. g\<lparr>pendingReactions := []\<rparr>) w) = (Returns (), w1) \<Longrightarrow>
   runReactionsLoop cb iterations w = runReactionsLoop cb (iterations + 1) w1"
  by (rule trans [OF runReactionsLoop.simps]) simp

lemma runReactionsLoop_fails:
  "pendingReactions (globalState w) \<noteq> [] \<Longrightarrow> iterations + 1 \<noteq> MAX_REACTION_ITERATIONS \<Longrightarrow>
   runRemaining cb (pendingReactions (globalState w))
     (upd_global (\<lambda>g. g\<lparr>pendingReactions := []\<rparr>) w) = (Throws e, w1) \<Longrightarrow>
   runReactionsLoop cb iterations w = Some (Throws e, w1)"
  by (rule trans [OF runReactionsLoop.simps]) simp

lemma runReactionsLoop_total:
  "iterations < MAX_REACTION_ITERATIONS \<Longrightarrow> \<exists>res. runReactionsLoop cb iterations w = Some res"
proof (induction "MAX_REACTION_ITERATIONS - iterations" arbitrary: iterations w)
  case 0
  then show ?case by simp
next
  case (Suc n)
  let ?rs = "pendingReactions (globalState w)"
  let ?res = "runRemaining cb ?rs (upd_global (\<lambda>g. g\<lparr>pendingReactions := []\<rparr>) w)"
  show ?case
  proof (cases "?rs = []")
    case True
    then show ?thesis by (simp add: runReactionsLoop_done)
  next
    case False
    show ?thesis
    proof (cases "iterations + 1 = MAX_REACTION_ITERATIONS")
      case True
      with False show ?thesis by (simp add: runReactionsLoop_throws)
    next
      case more: False
      show ?thesis
      proof (cases "fst ?res")
        case (Throws e)
        then have "?res = (Throws e, snd ?res)" by (simp add: prod_eq_iff)
        with False more show ?thesis by (simp add: runReactionsLoop_fails)
      next
        case (Returns u)
        then have "?res = (Returns (), snd ?res)" by (simp add: prod_eq_iff)
        with False more have eq: "runReactionsLoop cb iterations w
            = runReactionsLoop cb (iterations + 1) (snd ?res)"
          by (rule runReactionsLoop_pass)
        have n: "n = MAX_REACTION_ITERATIONS - (iterations + 1)"
          using Suc.hyps(2) by simp
        have lt: "iterations + 1 < MAX_REACTION_ITERATIONS"
          using Suc.prems(1) more by simp
        from Suc.hyps(1) [OF n lt] show ?thesis unfolding eq .
      qed
    qed
  qed
qed

lemma runReactions_total: "\<exists>res. runReactions cb w = Some res"
proof (cases "isRunningReactions (globalState w) \<or> 0 < inTransaction (globalState w)")
  case True
  then show ?thesis by (auto simp: runReactions_def)
next
  case False
  have "0 < MAX_REACTION_ITERATIONS"
    by (simp add: MAX_REACTION_ITERATIONS_def)
  from runReactionsLoop_total [OF this]
  obtain res where "runReactionsLoop cb 0
      (upd_global (\<lambda>g. g\<lparr>isRunningReactions := True\<rparr>) w) = Some res"
    by blast
  with False show ?thesis
    by (cases res; cases "fst res") (auto simp: runReactions_def)
qed

lemma leavesTransactionsClosedD:
  "leavesTransactionsClosed h \<Longrightarrow> inTransaction (globalState w) \<le> 0 \<Longrightarrow>
   inTransaction (globalState (snd (h r w))) \<le> 0"
  by (simp add: leavesTransactionsClosed_def)

lemma runReaction_outside:
  assumes "inTransaction (globalState w) \<le> 0"
  shows "runReaction (outsideTransactions k h) r w = runReaction h r w"
  using assms by (simp add: runReaction_def outsideTransactions_def Let_def)

lemma runReaction_closed:
  assumes h: "leavesTransactionsClosed h" and w: "inTransaction (globalState w) \<le> 0"
  shows "inTransaction (globalState (snd (runReaction h r w))) \<le> 0"
  using w leavesTransactionsClosedD [OF h] by (simp add: runReaction_def Let_def)

lemma runRemaining_outside:
  assumes h: "leavesTransactionsClosed h"
  shows "inTransaction (globalState w) \<le> 0 \<Longrightarrow>
         runRemaining (outsideTransactions k h) rs w = runRemaining h rs w \<and>
         inTransaction (globalState (snd (runRemaining h rs w))) \<le> 0"
proof (induction rs arbitrary: w)
  case Nil
  then show ?case by simp
next
  case (Cons r rs)
  let ?w0 = "upd_global (\<lambda>g. g\<lparr>currentReaction := Some r\<rparr>) w"
  have w0: "inTransaction (globalState ?w0) \<le> 0"
    using Cons.prems by simp
  have same: "runReaction (outsideTransactions k h) r ?w0 = runReaction h r ?w0"
    by (rule runReaction_outside [OF w0])
  have closed: "inTransaction (globalState (snd (runReaction h r ?w0))) \<le> 0"
    by (rule runReaction_closed [OF h w0])
  show ?case
    using Cons.IH [OF closed] closed
    by (simp add: same case_prod_beta split: outcome.splits)
qed

lemma runReactionsLoop_outside:
  assumes h: "leavesTransactionsClosed h"
  shows "iterations < MAX_REACTION_ITERATIONS \<Longrightarrow> inTransaction (globalState w) \<le> 0 \<Longrightarrow>
         runReactionsLoop (outsideTransactions k h) iterations w = runReactionsLoop h iterations w"
proof (induction "MAX_REACTION_ITERATIONS - iterations" arbitrary: iterations w)
  case 0
  then show ?case by simp
next
  case (Suc n)
  let ?rs = "pendingReactions (globalState w)"
  let ?w0 = "upd_global (\<lambda>g. g\<lparr>pendingReactions := []\<rparr>) w"
  let ?res = "runRemaining h ?rs ?w0"
  have w0: "inTransaction (globalState ?w0) \<le> 0"
    using Suc.prems(2) by simp
  note rem = runRemaining_outside [OF h w0, of k ?rs]
  show ?case
  proof (cases "?rs = []")
    case True
    then show ?thesis by (simp add: runReactionsLoop_done)
  next
    case False
    show ?thesis
    proof (cases "iterations + 1 = MAX_REACTION_ITERATIONS")
      case True
      with False show ?thesis by (simp add: runReactionsLoop_throws)
    next
      case more: False
      show ?thesis
      proof (cases "fst ?res")
        case (Throws e)
        then have r: "?res = (Throws e, snd ?res)" by (simp add: prod_eq_iff)
        with rem have r': "runRemaining (outsideTransactions k h) ?rs ?w0 = (Throws e, snd ?res)"
          by simp
        show ?thesis
          using runReactionsLoop_fails [OF False more r]
            runReactionsLoop_fails [OF False more r'] by simp
      next
        case (Returns u)
        then have r: "?res = (Returns (), snd ?res)" by (simp add: prod_eq_iff)
        with rem have r': "runRemaining (outsideTransactions k h) ?rs ?w0 = (Returns (), snd ?res)"
          by simp
        have n: "n = MAX_REACTION_ITERATIONS - (iterations + 1)"
          using Suc.hyps(2) by simp
        have lt: "iterations + 1 < MAX_REACTION_ITERATIONS"
          using Suc.prems(1) more by simp
        have closed: "inTransaction (globalState (snd ?res)) \<le> 0"
          using rem by simp
        show ?thesis
          using runReactionsLoop_pass [OF False more r] runReactionsLoop_pass [OF False more r']
            Suc.hyps(1) [OF n lt closed]
          by simp
      qed
    qed
  qed
qed

lemma runReactions_outside:
  assumes h: "leavesTransactionsClosed h"
  shows "runReactions (outsideTransactions k h) w = runReactions h w"
proof (cases "isRunningReactions (globalState w) \<or> 0 < inTransaction (globalState w)")
  case True
  then show ?thesis by (auto simp: runReactions_def)
next
  case False
  have lt: "0 < MAX_REACTION_ITERATIONS"
    by (simp add: MAX_REACTION_ITERATIONS_def)
  have "inTransaction (globalState (upd_global (\<lambda>g. g\<lparr>isRunningReactions := True\<rparr>) w)) \<le> 0"
    using False by simp
  from runReactionsLoop_outside [OF h lt this, of k] False
  show ?thesis by (simp add: runReactions_def)
qed

text \<open>
  C5, as stated, fails: a reaction can run while a transaction is open.  Only the entry
  of \<open>runReactions\<close> looks at the transaction depth.  \<open>runReaction\<close>, with which a
  reaction may be started, calls the handler whatever the depth is, here at depth 1; and a
  drain that has started does not look at the depth again, so that after the handler of
  reaction 7 has returned with a transaction open, reaction 8 of the same batch runs at
  depth 1.
\<close>

theorem reaction_runs_in_transaction_counterexample:
  "inTransaction (globalState transactionWorld) = 1 \<and>
   fst (runReaction logInvalidate 7 transactionWorld) = Returns () \<and>
   user (snd (runReaction logInvalidate 7 transactionWorld)) = [OnInvalidate 7] \<and>
   inTransaction (globalState batchWorld) = 0 \<and>
   runReactions leavingOpen batchWorld \<noteq> None \<and>
   fst (the (runReactions leavingOpen batchWorld)) = Returns () \<and>
   user (snd (the (runReactions leavingOpen batchWorld))) = [(7, 0), (8, 1)]"
proof -
  let ?w0 = "upd_global (\<lambda>g. g\<lparr>isRunningReactions := True\<rparr>) batchWorld"
  let ?res = "runRemaining leavingOpen [7, 8] (upd_global (\<lambda>g. g\<lparr>pendingReactions := []\<rparr>) ?w0)"
  have t: "inTransaction (globalState transactionWorld) = 1"
    "fst (runReaction logInvalidate 7 transactionWorld) = Returns ()"
    "user (snd (runReaction logInvalidate 7 transactionWorld)) = [OnInvalidate 7]"
    "inTransaction (globalState batchWorld) = 0"
    by code_simp+
  have g: "isRunningReactions (globalState batchWorld) = False"
    "pendingReactions (globalState ?w0) = [7, 8]"
    "pendingReactions (globalState batchWorld) = [7, 8]"
    by code_simp+
  have "fst ?res = Returns ()"
    by code_simp
  then have r: "runRemaining leavingOpen (pendingReactions (globalState ?w0))
      (upd_global (\<lambda>g. g\<lparr>pendingReactions := []\<rparr>) ?w0) = (Returns (), snd ?res)"
    unfolding g(2,3) by (simp add: prod_eq_iff)
  have e: "pendingReactions (globalState (snd ?res)) = []"
    by code_simp
  have u: "user (snd ?res) = [(7, 0), (8, 1)]"
    by code_simp
  have "runReactionsLoop leavingOpen 0 ?w0 = runReactionsLoop leavingOpen (0 + 1) (snd ?res)"
    using _ _ r by (rule runReactionsLoop_pass) (simp_all add: g MAX_REACTION_ITERATIONS_def)
  also have "\<dots> = Some (Returns (), snd ?res)"
    using e by (rule runReactionsLoop_done)
  finally have l: "runReactionsLoop leavingOpen 0 ?w0 = Some (Returns (), snd ?res)" .
  have "runReactions leavingOpen batchWorld \<noteq> None \<and>
   fst (the (runReactions leavingOpen batchWorld)) = Returns () \<and>
   user (snd (the (runReactions leavingOpen batchWorld))) = [(7, 0), (8, 1)]"
    using t(4) g(1) by (simp add: runReactions_def l u del: runRemaining.simps)
  with t show ?thesis by simp
qed

text \<open>
  C5 (amended): while reactions are being run or a transaction is open, \<open>runReactions\<close>
  returns at once and leaves the world as it is, whatever the \<open>onInvalidate\<close> handlers
  are: no pending reaction is run, and \<open>schedule\<close> only sets the flag and appends the
  reaction to the queue.  A drain that does start calls no handler inside a transaction,
  provided that every handler that is called with no transaction open leaves none open:
  the drain is the same whatever the handlers would do inside a transaction.  Every call
  of \<open>runReactions\<close> returns or throws.
\<close>

theorem runReactions_stays_outside_transactions:
  "(isRunningReactions (globalState w) \<or> 0 < inTransaction (globalState w)
      \<longrightarrow> runReactions onInvalidate w = Some (Returns (), w)) \<and>
   ((isRunningReactions (globalState w) \<or> 0 < inTransaction (globalState w)) \<and>
    \<not> isScheduledFlag (derivations w r)
      \<longrightarrow> schedule onInvalidate r w
          = Some (Returns (),
              upd_global (\<lambda>g. g\<lparr>pendingReactions := pendingReactions g @ [r]\<rparr>)
                (upd_derivation r (\<lambda>x. x\<lparr>isScheduledFlag := True\<rparr>) w))) \<and>
   (leavesTransactionsClosed onInvalidate
      \<longrightarrow> runReactions (outsideTransactions other onInvalidate) w = runReactions onInvalidate w) \<and>
   (\<exists>res. runReactions onInvalidate w = Some res)"
proof (intro conjI impI)
  assume "isRunningReactions (globalState w) \<or> 0 < inTransaction (globalState w)"
  then show "runReactions onInvalidate w = Some (Returns (), w)"
    by (auto simp: runReactions_def)
next
  assume "(isRunningReactions (globalState w) \<or> 0 < inTransaction (globalState w)) \<and>
    \<not> isScheduledFlag (derivations w r)"
  then show "schedule onInvalidate r w
          = Some (Returns (),
              upd_global (\<lambda>g. g\<lparr>pendingReactions := pendingReactions g @ [r]\<rparr>)
                (upd_derivation r (\<lambda>x. x\<lparr>isScheduledFlag := True\<rparr>) w))"
    by (auto simp: runReactions_def schedule_def Let_def)
next
  assume "leavesTransactionsClosed onInvalidate"
  then show "runReactions (outsideTransactions other onInvalidate) w = runReactions onInvalidate w"
    by (rule runReactions_outside)
next
  show "\<exists>res. runReactions onInvalidate w = Some res"
    by (rule runReactions_total)
qed

theorem runReactions_stays_outside_transactions_witness:
  "0 < inTransaction (globalState transactionWorld) \<and>
   runReactions logInvalidate transactionWorld = Some (Returns (), transactionWorld) \<and>
   pendingReactions (globalState transactionWorld) = [7] \<and>
   user transactionWorld = [] \<and>
   isRunningReactions (globalState drainingWorld) \<and>
   runReactions logInvalidate drainingWorld = Some (Returns (), drainingWorld) \<and>
   \<not> isScheduledFlag (derivations transactionWorld 8) \<and>
   schedule logInvalidate 8 transactionWorld
     = Some (Returns (),
         upd_global (\<lambda>g. g\<lparr>pendingReactions := [7, 8]\<rparr>)
           (upd_derivation 8 (\<lambda>x. x\<lparr>isScheduledFlag := True\<rparr>) transactionWorld)) \<and>
   leavesTransactionsClosed logInvalidate \<and>
   fst (outsideTransactions throwingInvalidate logInvalidate 7 transactionWorld)
     = Throws (Error ''invalidated'') \<and>
   inTransaction (globalState pendingWorld) = 0 \<and>
   runReactions (outsideTransactions throwingInvalidate logInvalidate) pendingWorld
     = runReactions logInvalidate pendingWorld \<and>
   runReactions logInvalidate pendingWorld \<noteq> None \<and>
   fst (the (runReactions logInvalidate pendingWorld)) = Returns () \<and>
   user (snd (the (runReactions logInvalidate pendingWorld))) = [OnInvalidate 7]"
proof -
  let ?w0 = "upd_global (\<lambda>g. g\<lparr>isRunningReactions := True\<rparr>) pendingWorld"
  let ?res = "runRemaining logInvalidate [7] (upd_global (\<lambda>g. g\<lparr>pendingReactions := []\<rparr>) ?w0)"
  have a: "0 < inTransaction (globalState transactionWorld) \<and>
   runReactions logInvalidate transactionWorld = Some (Returns (), transactionWorld) \<and>
   pendingReactions (globalState transactionWorld) = [7] \<and>
   user transactionWorld = [] \<and>
   isRunningReactions (globalState drainingWorld) \<and>
   runReactions logInvalidate drainingWorld = Some (Returns (), drainingWorld) \<and>
   \<not> isScheduledFlag (derivations transactionWorld 8) \<and>
   schedule logInvalidate 8 transactionWorld
     = Some (Returns (),
         upd_global (\<lambda>g. g\<lparr>pendingReactions := [7, 8]\<rparr>)
           (upd_derivation 8 (\<lambda>x. x\<lparr>isScheduledFlag := True\<rparr>) transactionWorld))"
    using runReactions_stays_outside_transactions
        [of transactionWorld logInvalidate 8 throwingInvalidate]
      runReactions_stays_outside_transactions
        [of drainingWorld logInvalidate 8 throwingInvalidate]
    by (simp add: transactionWorld_def drainingWorld_def initialWorld_def initialGlobals_def
        noDerivation_def upd_global_def upd_derivation_def)
  have c: "leavesTransactionsClosed logInvalidate"
    by (simp add: leavesTransactionsClosed_def logInvalidate_def)
  have b: "runReactions (outsideTransactions throwingInvalidate logInvalidate) pendingWorld
     = runReactions logInvalidate pendingWorld"
    using runReactions_stays_outside_transactions
        [of pendingWorld logInvalidate 8 throwingInvalidate] c
    by blast
  have g: "isRunningReactions (globalState pendingWorld) = False"
    "inTransaction (globalState pendingWorld) = 0"
    "pendingReactions (globalState ?w0) = [7]"
    "pendingReactions (globalState pendingWorld) = [7]"
    by code_simp+
  have "fst ?res = Returns ()"
    by code_simp
  then have r: "runRemaining logInvalidate (pendingReactions (globalState ?w0))
      (upd_global (\<lambda>g. g\<lparr>pendingReactions := []\<rparr>) ?w0) = (Returns (), snd ?res)"
    unfolding g(2,3) by (simp add: prod_eq_iff)
  have e: "pendingReactions (globalState (snd ?res)) = []"
    by code_simp
  have u: "user (snd ?res) = [OnInvalidate 7]"
    by code_simp
  have "runReactionsLoop logInvalidate 0 ?w0 = runReactionsLoop logInvalidate (0 + 1) (snd ?res)"
    using _ _ r by (rule runReactionsLoop_pass) (simp_all add: g MAX_REACTION_ITERATIONS_def)
  also have "\<dots> = Some (Returns (), snd ?res)"
    using e by (rule runReactionsLoop_done)
  finally have l: "runReactionsLoop logInvalidate 0 ?w0 = Some (Returns (), snd ?res)" .
  have d: "runReactions logInvalidate pendingWorld \<noteq> None \<and>
   fst (the (runReactions logInvalidate pendingWorld)) = Returns () \<and>
   user (snd (the (runReactions logInvalidate pendingWorld))) = [OnInvalidate 7]"
    using g(1,2) by (simp add: runReactions_def l u del: runRemaining.simps)
  have o: "fst (outsideTransactions throwingInvalidate logInvalidate 7 transactionWorld)
     = Throws (Error ''invalidated'')"
    by code_simp
  from a b c d g(2) o show ?thesis by blast
qed

section \<open>Disposing a reaction\<close>

lemma trackDerivedFunction_no_holes:
  assumes t: "trackDerivedFunction resetGlobalState hO hU d f w = (Returns result, w2)"
    and lO: "leavesDerivation d hO" and lU: "leavesDerivation d hU"
  shows "None \<notin> set (observing (derivations w2 d))"
proof -
  let ?w3 = "upd_global (\<lambda>g. g\<lparr>derivationStack := butlast (derivationStack g)\<rparr>)
             (upd_global (\<lambda>g. g\<lparr>isTracking := isTracking (globalState w)\<rparr>)
                (snd (f (trackStart d w))))"
  note r = trackDerivedFunction_returnsD [OF t]
  have "observing (derivations w2 d) = newObserving d ?w3"
    using bindDependencies_derivation [OF r(3) lO lU] by (simp add: r(4))
  with bindDependencies_returnsD(2) [OF r(3)] show ?thesis by simp
qed

lemma dispose_now:
  assumes nd: "\<not> isDisposed (derivations w r)" and nr: "\<not> isRunningFlag (derivations w r)"
    and nh: "None \<notin> set (observing (derivations w r))"
    and h: "alwaysReturns h" and l: "leavesDerivation r h"
  shows "fst (dispose h r w) = Returns ()"
    and "isDisposed (derivations (snd (dispose h r w)) r)"
    and "observing (derivations (snd (dispose h r w)) r) = []"
    and "Some a \<in> set (observing (derivations w r)) \<Longrightarrow>
           r \<notin> observers (observables (snd (dispose h r w)) a)"
proof -
  let ?w1 = "upd_derivation r (\<lambda>x. x\<lparr>isDisposed := True\<rparr>) w"
  have eq: "dispose h r w = clearObserving h r ?w1"
    using nd nr by (simp add: dispose_def Let_def)
  have nh1: "None \<notin> set (observing (derivations ?w1 r))"
    using nh by simp
  have ret: "fst (clearObserving h r ?w1) = Returns ()"
    by (rule clearObserving_returns [OF h nh1])
  show "fst (dispose h r w) = Returns ()"
    unfolding eq by (rule ret)
  show "isDisposed (derivations (snd (dispose h r w)) r)"
    unfolding eq by (simp add: clearObserving_derivation [OF ret l])
  show "observing (derivations (snd (dispose h r w)) r) = []"
    unfolding eq by (rule clearObserving_removes(1) [OF ret l])
  show "r \<notin> observers (observables (snd (dispose h r w)) a)"
    if "Some a \<in> set (observing (derivations w r))"
    unfolding eq using that by (intro clearObserving_removes(2) [OF ret l]) simp
qed

lemma track_disposed:
  assumes t: "trackDerivedFunction resetGlobalState hO hU r fn
                (upd_derivation r (\<lambda>x. x\<lparr>isRunningFlag := True\<rparr>) w) = (Returns x, w2)"
    and disposed: "isDisposed (derivations w2 r)"
    and h: "alwaysReturns hU" and lO: "leavesDerivation r hO" and lU: "leavesDerivation r hU"
  shows "fst (track resetGlobalState hO hU r fn w) = Returns ()"
    and "observing (derivations (snd (track resetGlobalState hO hU r fn w)) r) = []"
    and "\<not> isRunningFlag (derivations (snd (track resetGlobalState hO hU r fn w)) r)"
    and "Some a \<in> set (observing (derivations w2 r)) \<Longrightarrow>
           r \<notin> observers (observables (snd (track resetGlobalState hO hU r fn w)) a)"
proof -
  let ?w4 = "upd_derivation r (\<lambda>x. x\<lparr>isTrackPendingFlag := False\<rparr>)
               (upd_derivation r (\<lambda>x. x\<lparr>isRunningFlag := False\<rparr>) w2)"
  have eq: "track resetGlobalState hO hU r fn w = clearObserving hU r ?w4"
    using t disposed by (simp add: track_def Let_def)
  have nh: "None \<notin> set (observing (derivations ?w4 r))"
    using trackDerivedFunction_no_holes [OF t lO lU] by simp
  have ret: "fst (clearObserving hU r ?w4) = Returns ()"
    by (rule clearObserving_returns [OF h nh])
  show "fst (track resetGlobalState hO hU r fn w) = Returns ()"
    unfolding eq by (rule ret)
  show "observing (derivations (snd (track resetGlobalState hO hU r fn w)) r) = []"
    unfolding eq by (rule clearObserving_removes(1) [OF ret lU])
  show "\<not> isRunningFlag (derivations (snd (track resetGlobalState hO hU r fn w)) r)"
    unfolding eq using clearObserving_derivation [OF ret lU] by simp
  show "r \<notin> observers (observables (snd (track resetGlobalState hO hU r fn w)) a)"
    if "Some a \<in> set (observing (derivations w2 r))"
    unfolding eq using that by (intro clearObserving_removes(2) [OF ret lU]) simp
qed

text \<open>
  What holds of disposal in terms of the \<open>_isRunning\<close> flag, for hooks that return and
  leave the reaction alone: \<open>dispose\<close> on a reaction that is not disposed and whose flag
  is clear marks it disposed, empties its \<open>observing\<close> list and removes it from the
  observer set of every observable of that list.  On a reaction whose flag is set
  \<open>dispose\<close> only marks it disposed.  A \<open>track\<close> whose tracked function has returned
  and that finds the reaction disposed then clears the dependencies bound by that run and
  clears the flag.  \<open>runReaction\<close> and \<open>dispose\<close> on a disposed reaction change
  nothing, and the \<open>onInvalidate\<close> handler is not called.
\<close>

lemma dispose_clears_observing:
  "(alwaysReturns onBecomeUnobserved \<and> leavesDerivation r onBecomeUnobserved \<and>
    \<not> isDisposed (derivations w r) \<and> \<not> isRunningFlag (derivations w r) \<and>
    None \<notin> set (observing (derivations w r))
      \<longrightarrow> fst (dispose onBecomeUnobserved r w) = Returns () \<and>
          isDisposed (derivations (snd (dispose onBecomeUnobserved r w)) r) \<and>
          observing (derivations (snd (dispose onBecomeUnobserved r w)) r) = [] \<and>
          (\<forall>a. Some a \<in> set (observing (derivations w r))
                \<longrightarrow> r \<notin> observers (observables (snd (dispose onBecomeUnobserved r w)) a))) \<and>
   (\<not> isDisposed (derivations w r) \<and> isRunningFlag (derivations w r)
      \<longrightarrow> dispose onBecomeUnobserved r w
          = (Returns (), upd_derivation r (\<lambda>x. x\<lparr>isDisposed := True\<rparr>) w)) \<and>
   (alwaysReturns onBecomeUnobserved \<and> leavesDerivation r onBecomeObserved \<and>
    leavesDerivation r onBecomeUnobserved \<and>
    trackDerivedFunction resetGlobalState onBecomeObserved onBecomeUnobserved r fn
      (upd_derivation r (\<lambda>x. x\<lparr>isRunningFlag := True\<rparr>) w) = (Returns x, w2) \<and>
    isDisposed (derivations w2 r)
      \<longrightarrow> fst (track resetGlobalState onBecomeObserved onBecomeUnobserved r fn w) = Returns () \<and>
          observing (derivations
            (snd (track resetGlobalState onBecomeObserved onBecomeUnobserved r fn w)) r) = [] \<and>
          \<not> isRunningFlag (derivations
            (snd (track resetGlobalState onBecomeObserved onBecomeUnobserved r fn w)) r) \<and>
          (\<forall>a. Some a \<in> set (observing (derivations w2 r))
                \<longrightarrow> r \<notin> observers (observables
                      (snd (track resetGlobalState onBecomeObserved onBecomeUnobserved r fn w)) a))) \<and>
   (isDisposed (derivations w r)
      \<longrightarrow> runReaction onInvalidate r w = (Returns (), w) \<and>
          dispose onBecomeUnobserved r w = (Returns (), w))"
proof (intro conjI)
  show "alwaysReturns onBecomeUnobserved \<and> leavesDerivation r onBecomeUnobserved \<and>
    \<not> isDisposed (derivations w r) \<and> \<not> isRunningFlag (derivations w r) \<and>
    None \<notin> set (observing (derivations w r))
      \<longrightarrow> fst (dispose onBecomeUnobserved r w) = Returns () \<and>
          isDisposed (derivations (snd (dispose onBecomeUnobserved r w)) r) \<and>
          observing (derivations (snd (dispose onBecomeUnobserved r w)) r) = [] \<and>
          (\<forall>a. Some a \<in> set (observing (derivations w r))
                \<longrightarrow> r \<notin> observers (observables (snd (dispose onBecomeUnobserved r w)) a))"
    using dispose_now [of w r onBecomeUnobserved] by blast
  show "\<not> isDisposed (derivations w r) \<and> isRunningFlag (derivations w r)
      \<longrightarrow> dispose onBecomeUnobserved r w
          = (Returns (), upd_derivation r (\<lambda>x. x\<lparr>isDisposed := True\<rparr>) w)"
    by (simp add: dispose_def Let_def)
  show "alwaysReturns onBecomeUnobserved \<and> leavesDerivation r onBecomeObserved \<and>
    leavesDerivation r onBecomeUnobserved \<and>
    trackDerivedFunction resetGlobalState onBecomeObserved onBecomeUnobserved r fn
      (upd_derivation r (\<lambda>x. x\<lparr>isRunningFlag := True\<rparr>) w) = (Returns x, w2) \<and>
    isDisposed (derivations w2 r)
      \<longrightarrow> fst (track resetGlobalState onBecomeObserved onBecomeUnobserved r fn w) = Returns () \<and>
          observing (derivations
            (snd (track resetGlobalState onBecomeObserved onBecomeUnobserved r fn w)) r) = [] \<and>
          \<not> isRunningFlag (derivations
            (snd (track resetGlobalState onBecomeObserved onBecomeUnobserved r fn w)) r) \<and>
          (\<forall>a. Some a \<in> set (observing (derivations w2 r))
                \<longrightarrow> r \<notin> observers (observables
                      (snd (track resetGlobalState onBecomeObserved onBecomeUnobserved r fn w)) a))"
    using track_disposed
      [of resetGlobalState onBecomeObserved onBecomeUnobserved r fn w x w2] by blast
  show "isDisposed (derivations w r)
      \<longrightarrow> runReaction onInvalidate r w = (Returns (), w) \<and>
          dispose onBecomeUnobserved r w = (Returns (), w)"
    by (simp add: runReaction_def dispose_def)
qed

lemma dispose_clears_observing_example:
  "\<not> isDisposed (derivations boundWorld 7) \<and>
   \<not> isRunningFlag (derivations boundWorld 7) \<and>
   None \<notin> set (observing (derivations boundWorld 7)) \<and>
   observing (derivations boundWorld 7) = [Some 1, Some 2] \<and>
   fst (dispose noop 7 boundWorld) = Returns () \<and>
   isDisposed (derivations (snd (dispose noop 7 boundWorld)) 7) \<and>
   observing (derivations (snd (dispose noop 7 boundWorld)) 7) = [] \<and>
   7 \<notin> observers (observables (snd (dispose noop 7 boundWorld)) 1) \<and>
   7 \<notin> observers (observables (snd (dispose noop 7 boundWorld)) 2) \<and>
   isRunningFlag (derivations runningWorld 7) \<and>
   dispose noop 7 runningWorld
     = (Returns (), upd_derivation 7 (\<lambda>x. x\<lparr>isDisposed := True\<rparr>) runningWorld) \<and>
   trackDerivedFunction resetExample noop noop 7 disposingAction
       (upd_derivation 7 (\<lambda>x. x\<lparr>isRunningFlag := True\<rparr>) boundWorld)
     = (Returns (), snd (trackDerivedFunction resetExample noop noop 7 disposingAction runningWorld)) \<and>
   isDisposed (derivations
     (snd (trackDerivedFunction resetExample noop noop 7 disposingAction runningWorld)) 7) \<and>
   observing (derivations
     (snd (trackDerivedFunction resetExample noop noop 7 disposingAction runningWorld)) 7) = [Some 3] \<and>
   7 \<in> observers (observables
     (snd (trackDerivedFunction resetExample noop noop 7 disposingAction runningWorld)) 3) \<and>
   fst (track resetExample noop noop 7 disposingAction boundWorld) = Returns () \<and>
   observing (derivations (snd (track resetExample noop noop 7 disposingAction boundWorld)) 7) = [] \<and>
   \<not> isRunningFlag (derivations (snd (track resetExample noop noop 7 disposingAction boundWorld)) 7) \<and>
   7 \<notin> observers (observables (snd (track resetExample noop noop 7 disposingAction boundWorld)) 3) \<and>
   runReaction throwingInvalidate 7 (snd (dispose noop 7 boundWorld))
     = (Returns (), snd (dispose noop 7 boundWorld))"
proof -
  let ?noop = "noop :: oid \<Rightarrow> unit world \<Rightarrow> unit outcome \<times> unit world"
  let ?w2 = "snd (trackDerivedFunction resetExample noop noop 7 disposingAction runningWorld)"
  have n: "alwaysReturns ?noop" "leavesDerivation 7 ?noop"
    by (simp_all add: noop_hook)
  have b: "\<not> isDisposed (derivations boundWorld 7)" "\<not> isRunningFlag (derivations boundWorld 7)"
    "observing (derivations boundWorld 7) = [Some 1, Some 2]"
    by (simp_all add: boundWorld_def noDerivation_def)
  have r: "\<not> isDisposed (derivations runningWorld 7)" "isRunningFlag (derivations runningWorld 7)"
    by (simp_all add: runningWorld_def boundWorld_def noDerivation_def)
  have "fst (trackDerivedFunction resetExample noop noop 7 disposingAction runningWorld) = Returns ()"
    by code_simp
  then have t: "trackDerivedFunction resetExample noop noop 7 disposingAction
       (upd_derivation 7 (\<lambda>x. x\<lparr>isRunningFlag := True\<rparr>) boundWorld) = (Returns (), ?w2)"
    unfolding runningWorld_def by (metis prod.collapse)
  have d: "isDisposed (derivations ?w2 7)"
    by code_simp
  have o: "observing (derivations ?w2 7) = [Some 3]"
    by code_simp
  have m: "7 \<in> observers (observables ?w2 3)"
    by code_simp
  have dd: "isDisposed (derivations (snd (dispose noop 7 boundWorld)) 7)"
    by code_simp
  from dispose_clears_observing
      [of ?noop 7 boundWorld ?noop resetExample disposingAction "()" ?w2 throwingInvalidate]
    dispose_clears_observing
      [of ?noop 7 runningWorld ?noop resetExample disposingAction "()" ?w2 throwingInvalidate]
    dispose_clears_observing
      [of ?noop 7 "snd (dispose noop 7 boundWorld)" ?noop resetExample disposingAction "()" ?w2
       throwingInvalidate]
  show ?thesis
    using n b r t d o m dd by simp
qed

text \<open>A \<open>track\<close> that is left by an exception does not clear the \<open>_isRunning\<close> flag.\<close>

lemma track_throws:
  assumes "trackDerivedFunction resetGlobalState hO hU r fn
             (upd_derivation r (\<lambda>x. x\<lparr>isRunningFlag := True\<rparr>) w) = (Throws e, w2)"
  shows "track resetGlobalState hO hU r fn w = (Throws e, w2)"
  using assms by (simp add: track_def Let_def)

lemma track_throws_running:
  assumes f: "fn (trackStart r (upd_derivation r (\<lambda>x. x\<lparr>isRunningFlag := True\<rparr>) w)) = (Throws e, w1)"
    and flag: "isRunningFlag (derivations w1 r)"
  shows "fst (track resetGlobalState hO hU r fn w) = Throws e"
    and "isRunningFlag (derivations (snd (track resetGlobalState hO hU r fn w)) r)"
    and "observing (derivations (snd (track resetGlobalState hO hU r fn w)) r)
           = observing (derivations w r)"
    and "observables (snd (track resetGlobalState hO hU r fn w)) = observables w1"
  using f flag
  by (simp_all add: track_def trackDerivedFunction_def trackCatch_def Let_def)

text \<open>
  C8, at the input where the code and the claim part: reaction 7 observes 1 and 2, and a
  \<open>track\<close> of it is left by the exception of its tracked function.  \<open>track\<close> has no
  exception handler, so the flag \<open>_isRunning\<close> is still set although no run is in
  progress.  A \<open>dispose\<close> that follows marks the reaction disposed and, because of the
  flag, leaves the clearing to the end of a run that is not there: the \<open>observing\<close> list
  is not cleared and the reaction stays in the observer sets of 1 and 2.  No hook is
  fired on the way.
\<close>

theorem dispose_after_failed_track_keeps_observing:
  "fst (track resetExample noop noop 7 failingAction boundWorld) = Throws (Error ''boom'') \<and>
   isRunningFlag (derivations (snd (track resetExample noop noop 7 failingAction boundWorld)) 7) \<and>
   \<not> isDisposed (derivations (snd (track resetExample noop noop 7 failingAction boundWorld)) 7) \<and>
   observing (derivations (snd (track resetExample noop noop 7 failingAction boundWorld)) 7)
     = [Some 1, Some 2] \<and>
   fst (dispose noop 7 (snd (track resetExample noop noop 7 failingAction boundWorld))) = Returns () \<and>
   isDisposed (derivations
     (snd (dispose noop 7 (snd (track resetExample noop noop 7 failingAction boundWorld)))) 7) \<and>
   observing (derivations
     (snd (dispose noop 7 (snd (track resetExample noop noop 7 failingAction boundWorld)))) 7)
     = [Some 1, Some 2] \<and>
   7 \<in> observers (observables
     (snd (dispose noop 7 (snd (track resetExample noop noop 7 failingAction boundWorld)))) 1) \<and>
   7 \<in> observers (observables
     (snd (dispose noop 7 (snd (track resetExample noop noop 7 failingAction boundWorld)))) 2)"
  by code_simp

section \<open>The queue of pending reactions\<close>

lemma respectsQueueD:
  assumes "respectsQueue cb" and "queueConsistent w"
  shows "queueConsistent (snd (cb r w))"
    and "awaitingRun q w \<Longrightarrow> awaitingRun q (snd (cb r w))"
  using assms by (simp_all add: respectsQueue_def)

lemma runReaction_keeps_queue:
  assumes cb: "respectsQueue cb" and w: "queueConsistent w"
    and r: "r \<notin> set (pendingReactions (globalState w))"
  shows "queueConsistent
           (snd (runReaction cb r (upd_global (\<lambda>g. g\<lparr>currentReaction := Some r\<rparr>) w)))"
    and "q \<noteq> r \<Longrightarrow> awaitingRun q w \<Longrightarrow>
         awaitingRun q
           (snd (runReaction cb r (upd_global (\<lambda>g. g\<lparr>currentReaction := Some r\<rparr>) w)))"
proof -
  let ?w0 = "upd_global (\<lambda>g. g\<lparr>currentReaction := Some r\<rparr>) w"
  let ?w2 = "upd_derivation r (\<lambda>x. x\<lparr>isTrackPendingFlag := True\<rparr>)
               (upd_derivation r (\<lambda>x. x\<lparr>isScheduledFlag := False\<rparr>) ?w0)"
  have w0: "queueConsistent ?w0"
    using w by (simp add: queueConsistent_def)
  have w2: "queueConsistent ?w2"
    using w r by (auto simp: queueConsistent_def)
  have a0: "awaitingRun q ?w0" if "awaitingRun q w" for q
    using that by (simp add: awaitingRun_def)
  have a2: "awaitingRun q ?w2" if "awaitingRun q w" "q \<noteq> r" for q
    using that by (simp add: awaitingRun_def)
  show "queueConsistent (snd (runReaction cb r ?w0))"
    using w0 respectsQueueD(1) [OF cb w2, of r]
    by (simp add: runReaction_def Let_def)
  show "awaitingRun q (snd (runReaction cb r ?w0))" if "q \<noteq> r" "awaitingRun q w"
    using a0 [OF that(2)] respectsQueueD(2) [OF cb w2 a2 [OF that(2) that(1)], of r]
    by (simp add: runReaction_def Let_def)
qed

lemma runRemaining_keeps_queue_aux:
  assumes cb: "respectsQueue cb"
  shows "queueConsistent w \<Longrightarrow> distinct rs \<Longrightarrow> \<forall>q \<in> set rs. awaitingRun q w \<Longrightarrow>
         queueConsistent (snd (runRemaining cb rs w)) \<and>
         (\<forall>p. awaitingRun p w \<and> p \<notin> set rs \<longrightarrow> awaitingRun p (snd (runRemaining cb rs w)))"
proof (induction rs arbitrary: w)
  case Nil
  then show ?case by simp
next
  case (Cons r rs)
  let ?res = "runReaction cb r (upd_global (\<lambda>g. g\<lparr>currentReaction := Some r\<rparr>) w)"
  let ?w1 = "snd ?res"
  have qw: "queueConsistent w" by (rule Cons.prems(1))
  have r: "r \<notin> set (pendingReactions (globalState w))"
    using Cons.prems(3) by (simp add: awaitingRun_def)
  have q1: "queueConsistent ?w1"
    by (rule runReaction_keeps_queue(1) [OF cb qw r])
  have keep: "awaitingRun q ?w1" if "q \<noteq> r" "awaitingRun q w" for q
    using that by (rule runReaction_keeps_queue(2) [OF cb qw r])
  have a1: "\<forall>q \<in> set rs. awaitingRun q ?w1"
  proof
    fix q
    assume q: "q \<in> set rs"
    with Cons.prems(2) have "q \<noteq> r" by auto
    moreover have "awaitingRun q w" using Cons.prems(3) q by simp
    ultimately show "awaitingRun q ?w1" by (rule keep)
  qed
  have d: "distinct rs" using Cons.prems(2) by simp
  note ih = Cons.IH [OF q1 d a1]
  show ?case
  proof (cases "fst ?res")
    case (Returns u)
    then have eq: "runRemaining cb (r # rs) w = runRemaining cb rs ?w1"
      by (cases ?res) simp
    show ?thesis
      unfolding eq using ih keep by auto
  next
    case (Throws e)
    then have eq: "snd (runRemaining cb (r # rs) w) = ?w1"
      by (cases ?res) simp
    show ?thesis
      unfolding eq using q1 keep by auto
  qed
qed

lemma runReactionsLoop_keeps_queue:
  assumes cb: "respectsQueue cb"
  shows "iterations < MAX_REACTION_ITERATIONS \<Longrightarrow> queueConsistent w \<Longrightarrow>
         \<exists>res. runReactionsLoop cb iterations w = Some res \<and> queueConsistent (snd res) \<and>
               (\<forall>p. awaitingRun p w \<longrightarrow> awaitingRun p (snd res))"
proof (induction "MAX_REACTION_ITERATIONS - iterations" arbitrary: iterations w)
  case 0
  then show ?case by simp
next
  case (Suc n)
  let ?rs = "pendingReactions (globalState w)"
  let ?w0 = "upd_global (\<lambda>g. g\<lparr>pendingReactions := []\<rparr>) w"
  let ?res = "runRemaining cb ?rs ?w0"
  show ?case
  proof (cases "?rs = []")
    case True
    then have "runReactionsLoop cb iterations w = Some (Returns (), w)"
      by (subst runReactionsLoop.simps) simp
    with Suc.prems(2) show ?thesis by simp
  next
    case False
    show ?thesis
    proof (cases "iterations + 1 = MAX_REACTION_ITERATIONS")
      case True
      with False have "\<exists>e. runReactionsLoop cb iterations w = Some (Throws e, w)"
        by (subst runReactionsLoop.simps) simp
      with Suc.prems(2) show ?thesis by auto
    next
      case more: False
      have q0: "queueConsistent ?w0"
        by (simp add: queueConsistent_def)
      have d: "distinct ?rs"
        using Suc.prems(2) by (simp add: queueConsistent_def)
      have a0: "\<forall>q \<in> set ?rs. awaitingRun q ?w0"
        using Suc.prems(2) by (simp add: queueConsistent_def awaitingRun_def)
      note aux = runRemaining_keeps_queue_aux [OF cb q0 d a0]
      have p0: "awaitingRun p ?w0 \<and> p \<notin> set ?rs" if "awaitingRun p w" for p
        using that by (simp add: awaitingRun_def)
      have q1: "queueConsistent (snd ?res)"
        using aux by simp
      have p1: "awaitingRun p (snd ?res)" if "awaitingRun p w" for p
        using aux p0 [OF that] by blast
      show ?thesis
      proof (cases "fst ?res")
        case (Throws e)
        then have "runReactionsLoop cb iterations w = Some (Throws e, snd ?res)"
          using False more by (subst runReactionsLoop.simps) (cases ?res, simp)
        with q1 p1 show ?thesis by simp
      next
        case (Returns u)
        then have eq: "runReactionsLoop cb iterations w
            = runReactionsLoop cb (iterations + 1) (snd ?res)"
          using False more by (subst runReactionsLoop.simps) (cases ?res, simp)
        have n: "n = MAX_REACTION_ITERATIONS - (iterations + 1)"
          using Suc.hyps(2) by simp
        have lt: "iterations + 1 < MAX_REACTION_ITERATIONS"
          using Suc.prems(1) more by simp
        from Suc.hyps(1) [OF n lt q1]
        obtain res where "runReactionsLoop cb (iterations + 1) (snd ?res) = Some res"
          and "queueConsistent (snd res)"
          and "\<forall>p. awaitingRun p (snd ?res) \<longrightarrow> awaitingRun p (snd res)"
          by blast
        with p1 show ?thesis unfolding eq by auto
      qed
    qed
  qed
qed

lemma runReactions_keeps_queue:
  assumes cb: "respectsQueue cb" and w: "queueConsistent w"
  shows "\<exists>res. runReactions cb w = Some res \<and> queueConsistent (snd res) \<and>
               (\<forall>p. awaitingRun p w \<longrightarrow> awaitingRun p (snd res))"
proof (cases "isRunningReactions (globalState w) \<or> 0 < inTransaction (globalState w)")
  case True
  then have "runReactions cb w = Some (Returns (), w)"
    by (auto simp: runReactions_def)
  with w show ?thesis by simp
next
  case False
  let ?w0 = "upd_global (\<lambda>g. g\<lparr>isRunningReactions := True\<rparr>) w"
  have q0: "queueConsistent ?w0"
    using w by (simp add: queueConsistent_def)
  have lt: "0 < MAX_REACTION_ITERATIONS"
    by (simp add: MAX_REACTION_ITERATIONS_def)
  from runReactionsLoop_keeps_queue [OF cb lt q0]
  obtain res where l: "runReactionsLoop cb 0 ?w0 = Some res"
    and q: "queueConsistent (snd res)"
    and a: "\<forall>p. awaitingRun p ?w0 \<longrightarrow> awaitingRun p (snd res)"
    by blast
  have a': "awaitingRun p (snd res)" if "awaitingRun p w" for p
    using a that by (simp add: awaitingRun_def)
  show ?thesis
  proof (cases res)
    case (Pair out w1)
    show ?thesis
    proof (cases out)
      case (Throws e)
      with Pair l False have "runReactions cb w = Some (Throws e, w1)"
        by (simp add: runReactions_def)
      with q a' Pair show ?thesis by simp
    next
      case (Returns u)
      with Pair l False have "runReactions cb w = Some (Returns (),
               upd_global (\<lambda>g. g\<lparr>isRunningReactions := False\<rparr>)
                 (upd_global (\<lambda>g. g\<lparr>currentReaction := None\<rparr>) w1))"
        by (simp add: runReactions_def)
      moreover have "queueConsistent (upd_global (\<lambda>g. g\<lparr>isRunningReactions := False\<rparr>)
                 (upd_global (\<lambda>g. g\<lparr>currentReaction := None\<rparr>) w1))"
        using q Pair by (simp add: queueConsistent_def)
      moreover have "awaitingRun p (upd_global (\<lambda>g. g\<lparr>isRunningReactions := False\<rparr>)
                 (upd_global (\<lambda>g. g\<lparr>currentReaction := None\<rparr>) w1))" if "awaitingRun p w" for p
        using a' [OF that] Pair by (simp add: awaitingRun_def)
      ultimately show ?thesis by simp
    qed
  qed
qed

lemma schedule_keeps_queue:
  assumes cb: "respectsQueue cb" and w: "queueConsistent w"
  shows "\<exists>res. schedule cb r w = Some res \<and> queueConsistent (snd res) \<and>
               (\<forall>p. awaitingRun p w \<longrightarrow> awaitingRun p (snd res))"
proof (cases "isScheduledFlag (derivations w r)")
  case True
  then have "schedule cb r w = Some (Returns (), w)"
    by (simp add: schedule_def)
  with w show ?thesis by simp
next
  case False
  let ?w2 = "upd_global (\<lambda>g. g\<lparr>pendingReactions := pendingReactions g @ [r]\<rparr>)
               (upd_derivation r (\<lambda>x. x\<lparr>isScheduledFlag := True\<rparr>) w)"
  have eq: "schedule cb r w = runReactions cb ?w2"
    using False by (simp add: schedule_def Let_def)
  have "r \<notin> set (pendingReactions (globalState w))"
    using False w by (auto simp: queueConsistent_def)
  then have q2: "queueConsistent ?w2"
    using w by (auto simp: queueConsistent_def)
  have a2: "awaitingRun p ?w2" if "awaitingRun p w" for p
    using that False by (auto simp: awaitingRun_def)
  from runReactions_keeps_queue [OF cb q2] a2
  show ?thesis unfolding eq by blast
qed

section \<open>The bound on the drain\<close>

lemmas world_defs = passWorld_def drainedWorld_def initialWorld_def initialGlobals_def
  noDerivation_def upd_global_def upd_derivation_def

lemma selfTrigger_pass:
  "a + 1 < limit \<Longrightarrow>
   runRemaining (selfTrigger limit) [7]
     (upd_global (\<lambda>g. g\<lparr>pendingReactions := []\<rparr>) (passWorld cur trackPending a))
   = (Returns (), passWorld (Some 7) True (a + 1))"
  by (simp add: runReaction_def selfTrigger_def schedule_def runReactions_def Let_def world_defs)

lemma selfTrigger_last_pass:
  "a + 1 = limit \<Longrightarrow>
   runRemaining (selfTrigger limit) [7]
     (upd_global (\<lambda>g. g\<lparr>pendingReactions := []\<rparr>) (passWorld cur trackPending a))
   = (Returns (), drainedWorld (a + 1))"
  by (simp add: runReaction_def selfTrigger_def schedule_def runReactions_def Let_def world_defs)

lemma passWorld_pending:
  "pendingReactions (globalState (passWorld cur trackPending a)) = [7]"
  "toString (derivations (passWorld cur trackPending a) 7) = ''Reaction[counter]''"
  "pendingReactions (globalState (drainedWorld a)) = []"
  by (simp_all add: world_defs toString_def)

lemma selfTrigger_diverges:
  "iterations + k + 1 = MAX_REACTION_ITERATIONS \<Longrightarrow> a + k < limit \<Longrightarrow>
   runReactionsLoop (selfTrigger limit) iterations (passWorld cur trackPending a)
   = Some (Throws (Error ''Reaction doesn't converge to a stable state. Probably there is a cycle in the reactive function: Reaction[counter]''),
        passWorld (if k = 0 then cur else Some 7) (if k = 0 then trackPending else True) (a + k))"
proof (induction k arbitrary: iterations a cur trackPending)
  case 0
  have "runReactionsLoop (selfTrigger limit) iterations (passWorld cur trackPending a)
      = Some (Throws (Error (''Reaction doesn't converge to a stable state. Probably there is a cycle in the reactive function: ''
             @ toString (derivations (passWorld cur trackPending a)
                 (hd (pendingReactions (globalState (passWorld cur trackPending a))))))),
          passWorld cur trackPending a)"
    using 0(1) by (intro runReactionsLoop_throws) (simp_all add: passWorld_pending)
  then show ?case by (simp add: passWorld_pending)
next
  case (Suc k)
  have ne: "iterations + 1 \<noteq> MAX_REACTION_ITERATIONS"
    using Suc.prems(1) by simp
  have lt: "a + 1 < limit"
    using Suc.prems(2) by simp
  have "runReactionsLoop (selfTrigger limit) iterations (passWorld cur trackPending a)
      = runReactionsLoop (selfTrigger limit) (iterations + 1) (passWorld (Some 7) True (a + 1))"
  proof (rule runReactionsLoop_pass [OF _ ne])
    show "pendingReactions (globalState (passWorld cur trackPending a)) \<noteq> []"
      by (simp add: passWorld_pending)
    show "runRemaining (selfTrigger limit) (pendingReactions (globalState (passWorld cur trackPending a)))
       (upd_global (\<lambda>g. g\<lparr>pendingReactions := []\<rparr>) (passWorld cur trackPending a))
      = (Returns (), passWorld (Some 7) True (a + 1))"
      using selfTrigger_pass [OF lt, of cur trackPending] by (simp only: passWorld_pending)
  qed
  also have "\<dots> = Some (Throws (Error ''Reaction doesn't converge to a stable state. Probably there is a cycle in the reactive function: Reaction[counter]''),
        passWorld (Some 7) True (a + 1 + k))"
    using Suc.IH [of "iterations + 1" "a + 1" "Some 7" True] Suc.prems by simp
  finally show ?case by simp
qed

lemma selfTrigger_converges:
  "iterations + k + 1 < MAX_REACTION_ITERATIONS \<Longrightarrow> a + k + 1 = limit \<Longrightarrow>
   runReactionsLoop (selfTrigger limit) iterations (passWorld cur trackPending a)
   = Some (Returns (), drainedWorld limit)"
proof (induction k arbitrary: iterations a cur trackPending)
  case 0
  have ne: "iterations + 1 \<noteq> MAX_REACTION_ITERATIONS"
    using 0(1) by simp
  have l: "a + 1 = limit" using 0(2) by simp
  have "runReactionsLoop (selfTrigger limit) iterations (passWorld cur trackPending a)
      = runReactionsLoop (selfTrigger limit) (iterations + 1) (drainedWorld (a + 1))"
  proof (rule runReactionsLoop_pass [OF _ ne])
    show "pendingReactions (globalState (passWorld cur trackPending a)) \<noteq> []"
      by (simp add: passWorld_pending)
    show "runRemaining (selfTrigger limit) (pendingReactions (globalState (passWorld cur trackPending a)))
       (upd_global (\<lambda>g. g\<lparr>pendingReactions := []\<rparr>) (passWorld cur trackPending a))
      = (Returns (), drainedWorld (a + 1))"
      using selfTrigger_last_pass [OF l, of cur trackPending] by (simp only: passWorld_pending)
  qed
  also have "\<dots> = Some (Returns (), drainedWorld (a + 1))"
    by (rule runReactionsLoop_done) (simp add: passWorld_pending)
  finally show ?case using l by simp
next
  case (Suc k)
  have ne: "iterations + 1 \<noteq> MAX_REACTION_ITERATIONS"
    using Suc.prems(1) by simp
  have lt: "a + 1 < limit"
    using Suc.prems(2) by simp
  have "runReactionsLoop (selfTrigger limit) iterations (passWorld cur trackPending a)
      = runReactionsLoop (selfTrigger limit) (iterations + 1) (passWorld (Some 7) True (a + 1))"
  proof (rule runReactionsLoop_pass [OF _ ne])
    show "pendingReactions (globalState (passWorld cur trackPending a)) \<noteq> []"
      by (simp add: passWorld_pending)
    show "runRemaining (selfTrigger limit) (pendingReactions (globalState (passWorld cur trackPending a)))
       (upd_global (\<lambda>g. g\<lparr>pendingReactions := []\<rparr>) (passWorld cur trackPending a))
      = (Returns (), passWorld (Some 7) True (a + 1))"
      using selfTrigger_pass [OF lt, of cur trackPending] by (simp only: passWorld_pending)
  qed
  also have "\<dots> = Some (Returns (), drainedWorld limit)"
    using Suc.IH [of "iterations + 1" "a + 1" "Some 7" True] Suc.prems by simp
  finally show ?case .
qed

lemma runReaction_spliced_out:
  assumes cb: "respectsQueue cb" and w: "queueConsistent w"
    and r: "r \<notin> set (pendingReactions (globalState w))"
  shows "queueConsistent (snd (runReaction cb r w))"
proof -
  let ?w2 = "upd_derivation r (\<lambda>x. x\<lparr>isTrackPendingFlag := True\<rparr>)
               (upd_derivation r (\<lambda>x. x\<lparr>isScheduledFlag := False\<rparr>) w)"
  have w2: "queueConsistent ?w2"
    using w r by (auto simp: queueConsistent_def)
  show ?thesis
    using w respectsQueueD(1) [OF cb w2, of r]
    by (simp add: runReaction_def Let_def)
qed

lemma respectsQueue_selfTrigger: "respectsQueue (selfTrigger limit)"
  unfolding respectsQueue_def
proof (intro allI impI)
  fix r and w :: "nat world"
  assume w: "queueConsistent w"
  let ?w1 = "w\<lparr>user := user w + 1\<rparr>"
  have quiet: "respectsQueue (\<lambda>_ w'. (Returns (), w' :: nat world))"
    by (simp add: respectsQueue_def)
  have w1: "queueConsistent ?w1"
    using w by (simp add: queueConsistent_def)
  have a1: "awaitingRun q ?w1" if "awaitingRun q w" for q
    using that by (simp add: awaitingRun_def)
  from schedule_keeps_queue [OF quiet w1, of r]
  obtain res where s: "schedule (\<lambda>_ w'. (Returns (), w')) r ?w1 = Some res"
    and q: "queueConsistent (snd res)"
    and a: "\<forall>p. awaitingRun p ?w1 \<longrightarrow> awaitingRun p (snd res)"
    by blast
  have eq: "snd (selfTrigger limit r w) = (if user ?w1 < limit then snd res else ?w1)"
    using s by (simp add: selfTrigger_def Let_def)
  show "queueConsistent (snd (selfTrigger limit r w)) \<and>
        (\<forall>q. awaitingRun q w \<longrightarrow> awaitingRun q (snd (selfTrigger limit r w)))"
    unfolding eq using q a w1 a1 by simp
qed

lemma counterWorld_start:
  "upd_global (\<lambda>g. g\<lparr>isRunningReactions := True\<rparr>) counterWorld = passWorld None False 0"
  by (simp add: counterWorld_def world_defs)

lemma counterWorld_simps:
  "isRunningReactions (globalState counterWorld) = False"
  "inTransaction (globalState counterWorld) = 0"
  "pendingReactions (globalState counterWorld) = [7]"
  "isScheduledFlag (derivations counterWorld 7)"
  by (simp_all add: counterWorld_def world_defs)

text \<open>
  C3, at the input where the code and the claim part: the reaction \<open>counter\<close> schedules
  itself again in each of its first 99 runs and not in its 100th run, so the drain
  converges in exactly 100 iterations.  \<open>runReactions\<close> throws the divergence error,
  naming \<open>counter\<close>, when the counter \<open>iterations\<close> reaches 100, before the 100th run:
  the reaction has run 99 times and is pending, and the run that the code does not make
  would leave the queue empty.  With one run less to make, \<open>runReactions\<close> returns.
\<close>

theorem runReactions_throws_on_hundredth_iteration:
  "runReactions (selfTrigger 100) counterWorld
     = Some (Throws (Error ''Reaction doesn't converge to a stable state. Probably there is a cycle in the reactive function: Reaction[counter]''),
         passWorld (Some 7) True 99) \<and>
   user (passWorld (Some 7) True 99) = 99 \<and>
   runRemaining (selfTrigger 100) [7]
       (upd_global (\<lambda>g. g\<lparr>pendingReactions := []\<rparr>) (passWorld (Some 7) True 99))
     = (Returns (), drainedWorld 100) \<and>
   pendingReactions (globalState (drainedWorld 100)) = [] \<and>
   runReactions (selfTrigger 99) counterWorld
     = Some (Returns (),
         upd_global (\<lambda>g. g\<lparr>isRunningReactions := False\<rparr>)
           (upd_global (\<lambda>g. g\<lparr>currentReaction := None\<rparr>) (drainedWorld 99)))"
proof -
  have d: "runReactionsLoop (selfTrigger 100) 0 (passWorld None False 0)
      = Some (Throws (Error ''Reaction doesn't converge to a stable state. Probably there is a cycle in the reactive function: Reaction[counter]''),
         passWorld (Some 7) True 99)"
    using selfTrigger_diverges [of 0 99 0 100 None False]
    by (simp add: MAX_REACTION_ITERATIONS_def)
  have c: "runReactionsLoop (selfTrigger 99) 0 (passWorld None False 0)
      = Some (Returns (), drainedWorld 99)"
    using selfTrigger_converges [of 0 98 0 99 None False]
    by (simp add: MAX_REACTION_ITERATIONS_def)
  have l: "runRemaining (selfTrigger 100) [7]
       (upd_global (\<lambda>g. g\<lparr>pendingReactions := []\<rparr>) (passWorld (Some 7) True 99))
     = (Returns (), drainedWorld 100)"
    using selfTrigger_last_pass [of 99 100 "Some 7" True] by simp
  have u: "user (passWorld (Some 7) True 99) = 99"
    by (simp add: world_defs)
  show ?thesis
    by (simp only: runReactions_def counterWorld_simps counterWorld_start d c l u
        passWorld_pending) simp
qed

text \<open>
  C10: a reaction occurs at most once in \<open>pendingReactions\<close>.  If the queue has no
  duplicates and every reaction in it has its \<open>_isScheduled\<close> flag set, then this still
  holds after \<open>schedule\<close> and after \<open>runReactions\<close> (which both return), and after
  \<open>runReaction\<close> on a reaction that is not in the queue; \<open>schedule\<close> on a reaction
  whose flag is set changes nothing.  The \<open>onInvalidate\<close> handlers are assumed to keep
  the queue consistent and to leave alone the reactions that await their run.
\<close>

theorem reaction_queued_at_most_once:
  "respectsQueue onInvalidate \<and> queueConsistent w \<longrightarrow>
     (\<exists>res. schedule onInvalidate r w = Some res \<and> queueConsistent (snd res) \<and>
            distinct (pendingReactions (globalState (snd res)))) \<and>
     (\<exists>res. runReactions onInvalidate w = Some res \<and> queueConsistent (snd res) \<and>
            distinct (pendingReactions (globalState (snd res)))) \<and>
     (isScheduledFlag (derivations w r) \<longrightarrow> schedule onInvalidate r w = Some (Returns (), w)) \<and>
     (r \<notin> set (pendingReactions (globalState w))
        \<longrightarrow> queueConsistent (snd (runReaction onInvalidate r w)))"
proof
  assume h: "respectsQueue onInvalidate \<and> queueConsistent w"
  then have cb: "respectsQueue onInvalidate" and w: "queueConsistent w"
    by simp_all
  have s: "\<exists>res. schedule onInvalidate r w = Some res \<and> queueConsistent (snd res) \<and>
            distinct (pendingReactions (globalState (snd res)))"
    using schedule_keeps_queue [OF cb w, of r] by (auto simp: queueConsistent_def)
  have d: "\<exists>res. runReactions onInvalidate w = Some res \<and> queueConsistent (snd res) \<and>
            distinct (pendingReactions (globalState (snd res)))"
    using runReactions_keeps_queue [OF cb w] by (auto simp: queueConsistent_def)
  have f: "isScheduledFlag (derivations w r) \<longrightarrow> schedule onInvalidate r w = Some (Returns (), w)"
    by (simp add: schedule_def)
  have x: "r \<notin> set (pendingReactions (globalState w))
        \<longrightarrow> queueConsistent (snd (runReaction onInvalidate r w))"
    using runReaction_spliced_out [OF cb w] by blast
  from s d f x show "(\<exists>res. schedule onInvalidate r w = Some res \<and> queueConsistent (snd res) \<and>
            distinct (pendingReactions (globalState (snd res)))) \<and>
     (\<exists>res. runReactions onInvalidate w = Some res \<and> queueConsistent (snd res) \<and>
            distinct (pendingReactions (globalState (snd res)))) \<and>
     (isScheduledFlag (derivations w r) \<longrightarrow> schedule onInvalidate r w = Some (Returns (), w)) \<and>
     (r \<notin> set (pendingReactions (globalState w))
        \<longrightarrow> queueConsistent (snd (runReaction onInvalidate r w)))"
    by blast
qed

theorem reaction_queued_at_most_once_witness:
  "respectsQueue (selfTrigger 3) \<and> queueConsistent counterWorld \<and>
   (\<exists>res. schedule (selfTrigger 3) 8 counterWorld = Some res \<and> queueConsistent (snd res) \<and>
          distinct (pendingReactions (globalState (snd res)))) \<and>
   runReactions (selfTrigger 3) counterWorld
     = Some (Returns (),
         upd_global (\<lambda>g. g\<lparr>isRunningReactions := False\<rparr>)
           (upd_global (\<lambda>g. g\<lparr>currentReaction := None\<rparr>) (drainedWorld 3))) \<and>
   queueConsistent (upd_global (\<lambda>g. g\<lparr>isRunningReactions := False\<rparr>)
           (upd_global (\<lambda>g. g\<lparr>currentReaction := None\<rparr>) (drainedWorld 3))) \<and>
   isScheduledFlag (derivations counterWorld 7) \<and>
   schedule (selfTrigger 3) 7 counterWorld = Some (Returns (), counterWorld) \<and>
   8 \<notin> set (pendingReactions (globalState counterWorld)) \<and>
   queueConsistent (snd (runReaction (selfTrigger 3) 8 counterWorld))"
proof -
  have q: "queueConsistent counterWorld"
    by (simp add: queueConsistent_def counterWorld_def world_defs)
  have c: "runReactionsLoop (selfTrigger 3) 0 (passWorld None False 0)
      = Some (Returns (), drainedWorld 3)"
    using selfTrigger_converges [of 0 2 0 3 None False]
    by (simp add: MAX_REACTION_ITERATIONS_def)
  have run: "runReactions (selfTrigger 3) counterWorld
     = Some (Returns (),
         upd_global (\<lambda>g. g\<lparr>isRunningReactions := False\<rparr>)
           (upd_global (\<lambda>g. g\<lparr>currentReaction := None\<rparr>) (drainedWorld 3)))"
    by (simp only: runReactions_def counterWorld_simps counterWorld_start c) simp
  from reaction_queued_at_most_once [of "selfTrigger 3" counterWorld 8]
    reaction_queued_at_most_once [of "selfTrigger 3" counterWorld 7]
  show ?thesis
    using respectsQueue_selfTrigger [of 3] q run
    by (simp add: counterWorld_simps)
qed

end
